theory Spec2Isabelle
  imports Main "HOL-Library.Sublist" "HOL-Library.Multiset"
begin

section \<open>Python strings as used by gmail.py\<close>

text \<open>
  The program is Python 2: a \<open>str\<close> is a byte string, modelled as \<^typ>\<open>string\<close>.
\<close>

text \<open>\<open>s.startswith(p)\<close>.\<close>

fun startswith :: "string \<Rightarrow> string \<Rightarrow> bool" where
  "startswith s [] = True"
| "startswith [] (p # ps) = False"
| "startswith (c # cs) (p # ps) = (c = p \<and> startswith cs ps)"

text \<open>\<open>sub in s\<close>: \<open>sub\<close> occurs in \<open>s\<close> as a contiguous substring.\<close>

fun contains :: "string \<Rightarrow> string \<Rightarrow> bool" where
  "contains sub [] = (sub = [])"
| "contains sub (c # cs) = (startswith (c # cs) sub \<or> contains sub cs)"

text \<open>
  \<open>s.split(sep)\<close> for a separator: the pieces between the non-overlapping occurrences
  of \<open>sep\<close>, found from left to right. Python raises ValueError for an empty separator;
  the program only splits at the three-character literal \<open>'" "'\<close>, and for an empty
  separator the function below returns the whole string as the only piece.
\<close>

function split :: "string \<Rightarrow> string \<Rightarrow> string list" where
  "split sep [] = [[]]"
| "split sep (c # cs) =
     (if sep \<noteq> [] \<and> startswith (c # cs) sep
      then [] # split sep (drop (length sep) (c # cs))
      else (case split sep cs of
              [] \<Rightarrow> [[c]]
            | p # ps \<Rightarrow> (c # p) # ps))"
  by pat_completeness auto
termination
  by (relation "measure (\<lambda>(sep, s). length s)") auto

text \<open>The whitespace characters of \<open>str.split()\<close> without a separator.\<close>

definition isspace :: "char \<Rightarrow> bool" where
  "isspace c = (c \<in> {CHR '' '', CHR 0x09, CHR 0x0A, CHR 0x0B, CHR 0x0C, CHR 0x0D})"

text \<open>
  \<open>s.split()\<close>: the maximal runs of non-whitespace characters; \<open>cur\<close> is the run
  being read.
\<close>

fun split_whitespace :: "string \<Rightarrow> string \<Rightarrow> string list" where
  "split_whitespace cur [] = (if cur = [] then [] else [cur])"
| "split_whitespace cur (c # cs) =
     (if isspace c
      then (if cur = [] then split_whitespace [] cs else cur # split_whitespace [] cs)
      else split_whitespace (cur @ [c]) cs)"

section \<open>The session wrapper: class Gmail\<close>

text \<open>
  What the program raises. \<open>Exception msg\<close> is the \<open>raise Exception(msg)\<close> of the two
  fetch methods, \<open>IndexError\<close> is \<open>pop()\<close> on an empty list, \<open>ValueError\<close> is a thread
  pool asked for fewer than one thread, \<open>IMAP4_error\<close> is \<open>imaplib.IMAP4.error\<close>, raised by
  the library when a command is not legal in the state of the connection.
\<close>

datatype error = Exception string | IndexError | ValueError | IMAP4_error

type_synonym mailbox = string
type_synonym message_num = string

definition IMAP_OK :: string where
  "IMAP_OK = ''OK''"

definition CONNECTION_POOL_SIZE :: nat where
  "CONNECTION_POOL_SIZE = 10"

text \<open>
  \<open>Gmail.__init__\<close> makes every session an \<open>imaplib.IMAP4_SSL\<close> connection. The server
  behind it is a parameter: a value of type \<open>imap\<close> gives the replies to the commands of
  one logged-in connection,
  \<^item> \<open>imap_list\<close>: the reply \<open>(status, mailboxes)\<close> to \<open>list()\<close>;
  \<^item> \<open>imap_select mailbox\<close>: the status of the reply to \<open>select(mailbox)\<close>;
  \<^item> \<open>imap_search mailbox\<close>: the reply \<open>(status, data[0])\<close> to \<open>search(None, 'ALL')\<close>
    while \<open>mailbox\<close> is selected;
  \<^item> \<open>imap_fetch mailbox num\<close>: the reply \<open>(status, content[0][1])\<close> to
    \<open>fetch(num, '(RFC822)')\<close> while \<open>mailbox\<close> is selected.
  The log lines written by the methods are diagnostic and are left out.
\<close>

record imap =
  imap_list :: "string \<times> string list"
  imap_select :: "mailbox \<Rightarrow> string"
  imap_search :: "mailbox \<Rightarrow> string \<times> string"
  imap_fetch :: "mailbox \<Rightarrow> message_num \<Rightarrow> string \<times> string"

text \<open>
  The library keeps the state of the connection. \<open>IMAP4.select\<close> sets it to \<open>AUTH\<close> when
  the reply is not OK and to \<open>SELECTED\<close> otherwise; \<open>SEARCH\<close> and \<open>FETCH\<close> are legal only in
  the state \<open>SELECTED\<close>, and \<open>IMAP4._command\<close> raises \<open>IMAP4.error\<close> for a command that
  is not legal in the current state, before anything is sent. Both fetch methods call
  \<open>select\<close> first and a session is with one caller at a time, so the state a \<open>search\<close>
  or \<open>fetch\<close> finds is the one the \<open>select\<close> of the same call has left. (The library
  also raises by itself on a reply BAD; here such a reply is a status other than OK.)
\<close>

datatype imap_state = AUTH | SELECTED mailbox

definition imaplib_select :: "imap \<Rightarrow> mailbox \<Rightarrow> string \<times> imap_state" where
  "imaplib_select imap mailbox =
     (let typ = imap_select imap mailbox
      in (typ, if typ \<noteq> IMAP_OK then AUTH else SELECTED mailbox))"

fun imaplib_search :: "imap \<Rightarrow> imap_state \<Rightarrow> error + (string \<times> string)" where
  "imaplib_search imap AUTH = Inl IMAP4_error"
| "imaplib_search imap (SELECTED mailbox) = Inr (imap_search imap mailbox)"

fun imaplib_fetch :: "imap \<Rightarrow> imap_state \<Rightarrow> message_num \<Rightarrow> error + (string \<times> string)" where
  "imaplib_fetch imap AUTH message_num = Inl IMAP4_error"
| "imaplib_fetch imap (SELECTED mailbox) message_num = Inr (imap_fetch imap mailbox message_num)"

text \<open>\<open>email.message_from_string(body)\<close>: the parsed message, kept as the body it was
  parsed from.\<close>

datatype message = Message string

record gmail =
  gmail_imap :: imap
  gmail_id :: nat

text \<open>
  \<open>Gmail.__init__\<close>: \<open>imaplib host user password\<close> stands for
  \<open>imaplib.IMAP4_SSL(host)\<close> after \<open>login(user, password)\<close>.
\<close>

definition Gmail ::
  "(string \<Rightarrow> string \<Rightarrow> string \<Rightarrow> imap) \<Rightarrow> string \<Rightarrow> string \<Rightarrow> string \<Rightarrow> nat \<Rightarrow> gmail" where
  "Gmail imaplib host user password ident =
     \<lparr>gmail_imap = imaplib host user password, gmail_id = ident\<rparr>"

text \<open>The separator \<open>'" "'\<close> and the marker \<open>'[Gmail]'\<close> of \<open>get_mailboxes\<close>.\<close>

definition quote_space_quote :: string where
  "quote_space_quote = [CHR 0x22, CHR '' '', CHR 0x22]"

definition gmail_marker :: string where
  "gmail_marker = ''[Gmail]''"

text \<open>\<open>parse_mailbox = lambda mailbox: mailbox.split('" "')[-1][:-1]\<close>. The result of
  \<open>split\<close> is never empty, so \<open>[-1]\<close> is its last piece; \<open>[:-1]\<close> drops the last
  character (of an empty string, nothing).\<close>

definition parse_mailbox :: "string \<Rightarrow> mailbox" where
  "parse_mailbox mailbox = butlast (last (split quote_space_quote mailbox))"

text \<open>The generator \<open>(parse_mailbox(m) for m in mailboxes if '[Gmail]' not in m)\<close>.\<close>

fun wanted :: "string list \<Rightarrow> mailbox list" where
  "wanted [] = []"
| "wanted (m # mailboxes) =
     (if \<not> contains gmail_marker m then parse_mailbox m # wanted mailboxes
      else wanted mailboxes)"

definition get_mailboxes :: "gmail \<Rightarrow> mailbox list" where
  "get_mailboxes self = (let (status, mailboxes) = imap_list (gmail_imap self) in wanted mailboxes)"

text \<open>
  \<open>fetch_message_ids\<close>: \<open>status\<close> is first bound to the reply of \<open>select\<close> and then
  bound again by \<open>status, data = self.imap.search(None, 'ALL')\<close>; the test reads the
  second binding. An exception of the library leaves the method as it is.
\<close>

definition fetch_message_ids :: "gmail \<Rightarrow> mailbox \<Rightarrow> error + (mailbox \<times> message_num list)" where
  "fetch_message_ids self mailbox =
     (let (status, state) = imaplib_select (gmail_imap self) mailbox
      in case imaplib_search (gmail_imap self) state of
           Inl e \<Rightarrow> Inl e
         | Inr (status, data0) \<Rightarrow>
             if status \<noteq> IMAP_OK
             then Inl (Exception (''Failed to fetch messages for mailbox '' @ mailbox @ ''.''))
             else Inr (mailbox, split_whitespace [] data0))"

text \<open>\<open>fetch_message\<close>: the reply of \<open>select\<close> is not kept; the test reads the status of
  \<open>fetch\<close>.\<close>

definition fetch_message :: "gmail \<Rightarrow> mailbox \<Rightarrow> message_num \<Rightarrow> error + message" where
  "fetch_message self mailbox message_num =
     (let (typ, state) = imaplib_select (gmail_imap self) mailbox
      in case imaplib_fetch (gmail_imap self) state message_num of
           Inl e \<Rightarrow> Inl e
         | Inr (status, body) \<Rightarrow>
             if status \<noteq> IMAP_OK
             then Inl (Exception (''Failed to retrieve message '' @ message_num @
                                  '' from mailbox '' @ mailbox @ ''.''))
             else Inr (Message body))"

section \<open>The connection pool of scrape\<close>

text \<open>
  \<open>avail_connections\<close> is the list of the ids of the connections nobody is using.
  The first \<open>with lock:\<close> block of \<open>round_robin_connections\<close> is \<open>acquire\<close>:
  \<open>connection_id = avail_connections.pop()\<close>, which raises IndexError on an empty list.
  The second block is \<open>release\<close>: \<open>avail_connections.append(connection_id)\<close>.
\<close>

definition acquire :: "nat list \<Rightarrow> error + (nat \<times> nat list)" where
  "acquire avail_connections =
     (if avail_connections = [] then Inl IndexError
      else Inr (last avail_connections, butlast avail_connections))"

definition release :: "nat \<Rightarrow> nat list \<Rightarrow> nat list" where
  "release connection_id avail_connections = avail_connections @ [connection_id]"

text \<open>
  One call of \<open>round_robin_connections\<close> run alone, from the list of available ids to
  the value returned (or the exception raised) and the list afterwards. \<open>meth c args\<close>
  is \<open>getattr(connections[c], selector)(*func_args)\<close>. There is no \<open>try\<close>: when the
  operation raises, the second block is not reached.
\<close>

definition round_robin_connections ::
  "(nat \<Rightarrow> 't \<Rightarrow> error + 'r) \<Rightarrow> 't \<Rightarrow> nat list \<Rightarrow> (error + 'r) \<times> nat list" where
  "round_robin_connections meth args avail_connections =
     (case acquire avail_connections of
        Inl e \<Rightarrow> (Inl e, avail_connections)
      | Inr (connection_id, avail') \<Rightarrow>
          (case meth connection_id args of
             Inl e \<Rightarrow> (Inl e, avail')
           | Inr res \<Rightarrow> (Inr res, release connection_id avail')))"

section \<open>The thread pool running round_robin_connections\<close>

text \<open>
  \<open>pool.map_async(round_robin_connections, tasks)\<close> followed by \<open>job.get()\<close> is library
  code (\<open>multiprocessing.pool.ThreadPool\<close>); it is modelled by what it documents: a
  fixed number of threads take tasks, each thread runs one call at a time, the value of
  each call is stored at the position of its task, \<open>get()\<close> returns the list of values
  once every position is filled, and raises the first exception a call raised instead.
  The threads interleave freely. (The library hands the tasks out in chunks; here a free
  thread may take any task not yet taken.)

  The state keeps, for each position of the task list, where the call of
  \<open>round_robin_connections\<close> for that task stands. Between the atomic \<open>with lock:\<close>
  blocks a call is at one of these points:
  \<^item> \<open>Pending args\<close>: no thread has taken the task;
  \<^item> \<open>Holding args w c\<close>: thread \<open>w\<close> has left the first block with
    \<open>connection_id = c\<close> and is about to call the operation;
  \<^item> \<open>Returning w c res\<close>: the operation has returned \<open>res\<close> to thread \<open>w\<close>, the second
    block is next;
  \<^item> \<open>Returned res\<close>: the call has returned \<open>res\<close>;
  \<^item> \<open>Raised e\<close>: the call has raised \<open>e\<close>.
\<close>

datatype ('t, 'r) call =
  Pending 't | Holding 't nat nat | Returning nat nat 'r | Returned 'r | Raised error

text \<open>
  \<open>avail\<close> is the shared list \<open>avail_connections\<close>, \<open>threads\<close> the number of threads,
  \<open>failure\<close> the first exception raised. \<open>abandoned\<close> is a history variable: the
  connection ids of the calls that raised between the two blocks, which nothing appends
  to \<open>avail_connections\<close> again.
\<close>

record ('t, 'r) run_state =
  avail :: "nat list"
  threads :: nat
  calls :: "('t, 'r) call list"
  failure :: "error option"
  abandoned :: "nat list"

fun thread_of :: "('t, 'r) call \<Rightarrow> nat option" where
  "thread_of (Holding args w c) = Some w"
| "thread_of (Returning w c res) = Some w"
| "thread_of x = None"

definition idle :: "nat \<Rightarrow> ('t, 'r) run_state \<Rightarrow> bool" where
  "idle w s = list_all (\<lambda>x. thread_of x \<noteq> Some w) (calls s)"

text \<open>What the scheduler chooses: the idle thread \<open>w\<close> takes the task at position \<open>i\<close>
  and runs the first block; the operation is called for the task at position \<open>i\<close>; the
  second block is run for the task at position \<open>i\<close> and the call returns.\<close>

datatype event = Start nat nat | Work nat | Finish nat

definition raise_in :: "nat \<Rightarrow> error \<Rightarrow> ('t, 'r) run_state \<Rightarrow> ('t, 'r) run_state" where
  "raise_in i e s =
     s\<lparr>calls := (calls s)[i := Raised e],
       failure := (case failure s of None \<Rightarrow> Some e | Some e0 \<Rightarrow> Some e0)\<rparr>"

fun step ::
  "(nat \<Rightarrow> 't \<Rightarrow> error + 'r) \<Rightarrow> event \<Rightarrow> ('t, 'r) run_state \<Rightarrow> ('t, 'r) run_state option" where
  "step meth (Start w i) s =
     (if w < threads s \<and> idle w s \<and> i < length (calls s) then
        (case calls s ! i of
           Pending args \<Rightarrow>
             (case acquire (avail s) of
                Inl e \<Rightarrow> Some (raise_in i e s)
              | Inr (connection_id, avail') \<Rightarrow>
                  Some (s\<lparr>avail := avail',
                          calls := (calls s)[i := Holding args w connection_id]\<rparr>))
         | _ \<Rightarrow> None)
      else None)"
| "step meth (Work i) s =
     (if i < length (calls s) then
        (case calls s ! i of
           Holding args w connection_id \<Rightarrow>
             (case meth connection_id args of
                Inl e \<Rightarrow>
                  Some (raise_in i e (s\<lparr>abandoned := connection_id # abandoned s\<rparr>))
              | Inr res \<Rightarrow>
                  Some (s\<lparr>calls := (calls s)[i := Returning w connection_id res]\<rparr>))
         | _ \<Rightarrow> None)
      else None)"
| "step meth (Finish i) s =
     (if i < length (calls s) then
        (case calls s ! i of
           Returning w connection_id res \<Rightarrow>
             Some (s\<lparr>avail := release connection_id (avail s),
                     calls := (calls s)[i := Returned res]\<rparr>)
         | _ \<Rightarrow> None)
      else None)"

text \<open>A schedule is a list of events; \<open>None\<close> when an event of the list cannot happen.\<close>

fun run ::
  "(nat \<Rightarrow> 't \<Rightarrow> error + 'r) \<Rightarrow> event list \<Rightarrow> ('t, 'r) run_state \<Rightarrow> ('t, 'r) run_state option" where
  "run meth [] s = Some s"
| "run meth (ev # evs) s =
     (case step meth ev s of None \<Rightarrow> None | Some s' \<Rightarrow> run meth evs s')"

text \<open>\<open>pool.map_async(round_robin_connections, tasks)\<close> on a pool of \<open>n\<close> threads, with
  the list of available ids as it is at the call.\<close>

definition map_async :: "nat \<Rightarrow> nat list \<Rightarrow> 't list \<Rightarrow> ('t, 'r) run_state" where
  "map_async n avail_connections tasks =
     \<lparr>avail = avail_connections,
      threads = n,
      calls = map Pending tasks,
      failure = None,
      abandoned = []\<rparr>"

fun collect :: "('t, 'r) call list \<Rightarrow> 'r list option" where
  "collect [] = Some []"
| "collect (Returned res # xs) =
     (case collect xs of None \<Rightarrow> None | Some rs \<Rightarrow> Some (res # rs))"
| "collect (x # xs) = None"

text \<open>\<open>job.get()\<close>: the exception, the list of all values, or \<open>None\<close> while the job is
  not ready.\<close>

definition get :: "('t, 'r) run_state \<Rightarrow> (error + 'r list) option" where
  "get s =
     (case failure s of
        Some e \<Rightarrow> Some (Inl e)
      | None \<Rightarrow> (case collect (calls s) of None \<Rightarrow> None | Some rs \<Rightarrow> Some (Inr rs)))"

text \<open>The connection ids held by the calls that are between the two blocks: these are
  the ids leased.\<close>

fun call_connection :: "('t, 'r) call \<Rightarrow> nat list" where
  "call_connection (Holding args w c) = [c]"
| "call_connection (Returning w c res) = [c]"
| "call_connection x = []"

definition held :: "('t, 'r) run_state \<Rightarrow> nat list" where
  "held s = concat (map call_connection (calls s))"

definition leased :: "('t, 'r) run_state \<Rightarrow> nat list" where
  "leased s = held s"

text \<open>The ids that \<open>pop()\<close> has taken and \<open>append\<close> has not put back: those held by a
  call, and those of the calls that raised between the two blocks.\<close>

definition taken :: "('t, 'r) run_state \<Rightarrow> nat list" where
  "taken s = held s @ abandoned s"

section \<open>scrape\<close>

definition connections ::
  "(string \<Rightarrow> string \<Rightarrow> string \<Rightarrow> imap) \<Rightarrow> string \<Rightarrow> string \<Rightarrow> string \<Rightarrow> gmail list" where
  "connections imaplib imap_host user password =
     map (Gmail imaplib imap_host user password) [0..<CONNECTION_POOL_SIZE]"

text \<open>\<open>getattr(connections[connection_id], selector)(*func_args)\<close> for the two selectors
  scrape uses. An index outside the list raises IndexError (the source reads
  \<open>connections[connection_id]\<close> at the end of the first block; the ids of the pool are
  all inside the list).\<close>

definition call_fetch_message_ids ::
  "gmail list \<Rightarrow> nat \<Rightarrow> mailbox \<Rightarrow> error + (mailbox \<times> message_num list)" where
  "call_fetch_message_ids conns connection_id mailbox =
     (if connection_id < length conns
      then fetch_message_ids (conns ! connection_id) mailbox
      else Inl IndexError)"

definition call_fetch_message ::
  "gmail list \<Rightarrow> nat \<Rightarrow> mailbox \<times> message_num \<Rightarrow> error + message" where
  "call_fetch_message conns connection_id func_args =
     (if connection_id < length conns
      then fetch_message (conns ! connection_id) (fst func_args) (snd func_args)
      else Inl IndexError)"

text \<open>\<open>flat = [(mailbox, id_) for mailbox, ids in message_ids for id_ in ids]\<close>: the
  outer loop over the pairs, the inner loop over the ids of one pair.\<close>

fun flat_ids :: "mailbox \<Rightarrow> message_num list \<Rightarrow> (mailbox \<times> message_num) list" where
  "flat_ids mailbox [] = []"
| "flat_ids mailbox (ident # ids) = (mailbox, ident) # flat_ids mailbox ids"

fun flat :: "(mailbox \<times> message_num list) list \<Rightarrow> (mailbox \<times> message_num) list" where
  "flat [] = []"
| "flat ((mailbox, ids) # message_ids) = flat_ids mailbox ids @ flat message_ids"

text \<open>\<open>workers = min(len(connections), multiprocessing.cpu_count() * 2)\<close>.\<close>

definition workers :: "gmail list \<Rightarrow> nat \<Rightarrow> nat" where
  "workers conns cpu_count = min (length conns) (cpu_count * 2)"

text \<open>
  \<open>scrape(imap_host, user, password, mailboxes=None)\<close>. \<open>cpu_count\<close> is
  \<open>multiprocessing.cpu_count()\<close>; \<open>evs_ids\<close> and \<open>evs_msgs\<close> are the schedules of the
  two jobs. \<open>ThreadPool(n)\<close> raises ValueError for \<open>n < 1\<close>. The value is \<open>None\<close> when a
  schedule is not a run of its job up to the point where \<open>get()\<close> returns or raises.
  The second job starts from the list of available ids the first one left. Logging in
  (the construction of the ten sessions) is taken to succeed.
\<close>

definition scrape ::
  "(string \<Rightarrow> string \<Rightarrow> string \<Rightarrow> imap) \<Rightarrow> nat \<Rightarrow> event list \<Rightarrow> event list \<Rightarrow>
   string \<Rightarrow> string \<Rightarrow> string \<Rightarrow> mailbox list option \<Rightarrow> (error + message list) option" where
  "scrape imaplib cpu_count evs_ids evs_msgs imap_host user password mailboxes =
     (let conns = connections imaplib imap_host user password;
          avail_connections = [0..<CONNECTION_POOL_SIZE];
          n = workers conns cpu_count
      in if n < 1 then Some (Inl ValueError)
         else
           let mailboxes = (case mailboxes of
                              None \<Rightarrow> get_mailboxes (conns ! 0)
                            | Some ms \<Rightarrow> ms)
           in case run (call_fetch_message_ids conns) evs_ids
                     (map_async n avail_connections mailboxes) of
                None \<Rightarrow> None
              | Some s_ids \<Rightarrow>
                 (case get s_ids of
                    None \<Rightarrow> None
                  | Some (Inl e) \<Rightarrow> Some (Inl e)
                  | Some (Inr message_ids) \<Rightarrow>
                     (case run (call_fetch_message conns) evs_msgs
                             (map_async n (avail s_ids) (flat message_ids)) of
                        None \<Rightarrow> None
                      | Some s_msgs \<Rightarrow> get s_msgs)))"

text \<open>The command line: the parsed arguments and the call of scrape under
  \<open>if __name__ == '__main__'\<close> (writing the pickle file is left out).\<close>

record args =
  host :: string
  username :: string
  password :: string
  output_file :: string
  mailboxes :: "mailbox list option"
  connections_arg :: int

definition main ::
  "(string \<Rightarrow> string \<Rightarrow> string \<Rightarrow> imap) \<Rightarrow> nat \<Rightarrow> event list \<Rightarrow> event list \<Rightarrow>
   args \<Rightarrow> (error + message list) option" where
  "main imaplib cpu_count evs_ids evs_msgs a =
     scrape imaplib cpu_count evs_ids evs_msgs (host a) (username a) (password a) (mailboxes a)"

section \<open>The scenarios of the specification\<close>

text \<open>
  The end-to-end scenario: the server lists INBOX, a reserved folder and Sent; INBOX
  enumerates the ids 1 and 2, Sent the id 3; every call reports OK, and the body of a
  message is its mailbox and id.
\<close>

definition dquote :: string where
  "dquote = [CHR 0x22]"

definition list_line :: "string \<Rightarrow> string" where
  "list_line name = ''(HasNoChildren) '' @ dquote @ ''/'' @ dquote @ '' '' @ dquote @ name @ dquote"

definition scenario_imap :: imap where
  "scenario_imap =
     \<lparr>imap_list = (''OK'', [list_line ''INBOX'', list_line ''[Gmail]/Trash'', list_line ''Sent'']),
      imap_select = (\<lambda>mailbox. ''OK''),
      imap_search = (\<lambda>mailbox. (''OK'', if mailbox = ''INBOX'' then ''1 2'' else ''3'')),
      imap_fetch = (\<lambda>mailbox num. (''OK'', mailbox @ ''/'' @ num))\<rparr>"

text \<open>The fault scenario: as before, but the fetch of message 3 of Sent reports NO.\<close>

definition fault_imap :: imap where
  "fault_imap =
     scenario_imap\<lparr>imap_fetch :=
       (\<lambda>mailbox num. if mailbox = ''Sent'' \<and> num = ''3'' then (''NO'', [])
                       else (''OK'', mailbox @ ''/'' @ num))\<rparr>"

text \<open>The same server asked for a mailbox it does not have: selecting Drafts reports NO.\<close>

definition no_drafts_imap :: imap where
  "no_drafts_imap =
     scenario_imap\<lparr>imap_select := (\<lambda>mailbox. if mailbox = ''Drafts'' then ''NO'' else ''OK'')\<rparr>"

text \<open>A server on which the search in Sent reports NO.\<close>

definition no_search_imap :: imap where
  "no_search_imap =
     scenario_imap\<lparr>imap_search :=
       (\<lambda>mailbox. if mailbox = ''Sent'' then (''NO'', []) else (''OK'', ''1 2''))\<rparr>"

text \<open>A server on which the fetch of message 1 of INBOX reports NO, and eleven fetch
  tasks for INBOX.\<close>

definition flaky_imap :: imap where
  "flaky_imap =
     scenario_imap\<lparr>imap_fetch :=
       (\<lambda>mailbox num. if num = ''1'' then (''NO'', []) else (''OK'', mailbox @ ''/'' @ num))\<rparr>"

definition eleven_tasks :: "(mailbox \<times> message_num) list" where
  "eleven_tasks =
     flat [(''INBOX'', [''1'', ''2'', ''3'', ''4'', ''5'', ''6'', ''7'', ''8'', ''9'', ''10'', ''11''])]"

section \<open>Invariants of a run\<close>

text \<open>Every id of the list the job started with is available or taken, once.\<close>

definition conserved :: "nat list \<Rightarrow> ('t, 'r) run_state \<Rightarrow> bool" where
  "conserved avail0 s = (mset (avail s) + mset (taken s) = mset avail0)"

fun is_pending :: "('t, 'r) call \<Rightarrow> bool" where
  "is_pending (Pending args) = True"
| "is_pending x = False"

text \<open>Each id was taken by the call of a task that is no longer pending.\<close>

definition counted :: "nat \<Rightarrow> ('t, 'r) run_state \<Rightarrow> bool" where
  "counted n s = (length (taken s) + length (filter is_pending (calls s)) \<le> n)"

fun is_raised :: "('t, 'r) call \<Rightarrow> bool" where
  "is_raised (Raised e) = True"
| "is_raised x = False"

text \<open>The recorded failure is the exception of a call that raised, and there is one as
  soon as a call has raised.\<close>

definition recorded :: "('t, 'r) run_state \<Rightarrow> bool" where
  "recorded s =
     ((\<forall>e. failure s = Some e \<longrightarrow> Raised e \<in> set (calls s))
      \<and> (failure s = None \<longrightarrow> abandoned s = [] \<and> (\<forall>x \<in> set (calls s). \<not> is_raised x)))"

text \<open>
  What stands at a position belongs to the task \<open>t\<close> at that position: its arguments,
  or the outcome of the operation on a connection of the pool. \<open>x\<close> tells whether
  \<open>pop()\<close> may have found the list empty.
\<close>

fun call_ok ::
  "nat set \<Rightarrow> bool \<Rightarrow> (nat \<Rightarrow> 't \<Rightarrow> error + 'r) \<Rightarrow> 't \<Rightarrow> ('t, 'r) call \<Rightarrow> bool" where
  "call_ok ids x meth t (Pending args) = (args = t)"
| "call_ok ids x meth t (Holding args w c) = (args = t \<and> c \<in> ids)"
| "call_ok ids x meth t (Returning w c res) = (c \<in> ids \<and> meth c t = Inr res)"
| "call_ok ids x meth t (Returned res) = (\<exists>c\<in>ids. meth c t = Inr res)"
| "call_ok ids x meth t (Raised e) =
     ((x \<and> e = IndexError) \<or> (\<exists>c\<in>ids. meth c t = Inl e))"

definition aligned ::
  "nat set \<Rightarrow> bool \<Rightarrow> (nat \<Rightarrow> 't \<Rightarrow> error + 'r) \<Rightarrow> 't list \<Rightarrow> ('t, 'r) run_state \<Rightarrow> bool" where
  "aligned ids x meth tasks s =
     (length (calls s) = length tasks
      \<and> (\<forall>i<length tasks. call_ok ids x meth (tasks ! i) (calls s ! i)))"

definition invariant ::
  "nat list \<Rightarrow> bool \<Rightarrow> (nat \<Rightarrow> 't \<Rightarrow> error + 'r) \<Rightarrow> 't list \<Rightarrow> ('t, 'r) run_state \<Rightarrow> bool" where
  "invariant avail0 x meth tasks s =
     (conserved avail0 s \<and> counted (length tasks) s \<and> recorded s
      \<and> aligned (set avail0) x meth tasks s)"

text \<open>The steps a call still has to take; every event lowers the sum.\<close>

fun weight :: "('t, 'r) call \<Rightarrow> nat" where
  "weight (Pending args) = 3"
| "weight (Holding args w c) = 2"
| "weight (Returning w c res) = 1"
| "weight x = 0"

definition todo :: "('t, 'r) run_state \<Rightarrow> nat" where
  "todo s = sum_list (map weight (calls s))"

definition busy :: "('t, 'r) run_state \<Rightarrow> bool" where
  "busy s = (\<exists>x \<in> set (calls s). weight x \<noteq> 0)"

text \<open>The threads that are inside a call; no thread is inside two calls.\<close>

fun call_thread :: "('t, 'r) call \<Rightarrow> nat list" where
  "call_thread (Holding args w c) = [w]"
| "call_thread (Returning w c res) = [w]"
| "call_thread x = []"

definition in_flight :: "('t, 'r) run_state \<Rightarrow> nat list" where
  "in_flight s = concat (map call_thread (calls s))"

definition scheduled :: "('t, 'r) run_state \<Rightarrow> bool" where
  "scheduled s = (distinct (in_flight s) \<and> set (in_flight s) \<subseteq> {0..<threads s})"

section \<open>Lemmas\<close>

subsection \<open>Substrings and the parsed name of a mailbox\<close>

lemma startswith_prefix: "startswith s p = prefix p s"
  by (induction s p rule: startswith.induct) auto

lemma contains_sublist: "contains sub s = sublist sub s"
  by (induction s) (auto simp: sublist_Cons_right startswith_prefix)

lemma split_not_Nil: "split sep s \<noteq> []"
  by (induction sep s rule: split.induct) (auto split: list.splits)

lemma split_hd_prefix: "prefix (hd (split sep s)) s"
  by (induction sep s rule: split.induct) (auto split: list.splits)

lemma split_piece_sublist: "x \<in> set (split sep s) \<Longrightarrow> sublist x s"
proof (induction sep s arbitrary: x rule: split.induct)
  case (1 sep)
  then show ?case by simp
next
  case (2 sep c cs)
  show ?case
  proof (cases "sep \<noteq> [] \<and> startswith (c # cs) sep")
    case True
    with 2 have "x = [] \<or> sublist x (drop (length sep) (c # cs))" by auto
    then show ?thesis
      using sublist_drop sublist_order.order_trans by blast
  next
    case False
    obtain p ps where ps: "split sep cs = p # ps"
      using split_not_Nil by (cases "split sep cs") auto
    with False 2 have "x = c # p \<or> x \<in> set ps" by auto
    then show ?thesis
    proof
      assume "x = c # p"
      moreover have "prefix p cs" using split_hd_prefix [of sep cs] ps by simp
      ultimately show ?thesis by (simp add: prefix_imp_sublist)
    next
      assume "x \<in> set ps"
      with 2 False ps have "sublist x cs" by simp
      then show ?thesis by (simp add: sublist_Cons_right)
    qed
  qed
qed

lemma parse_mailbox_sublist: "sublist (parse_mailbox m) m"
proof -
  have "last (split quote_space_quote m) \<in> set (split quote_space_quote m)"
    by (simp add: split_not_Nil)
  then have "sublist (last (split quote_space_quote m)) m"
    by (rule split_piece_sublist)
  moreover have "sublist (parse_mailbox m) (last (split quote_space_quote m))"
    by (simp add: parse_mailbox_def sublist_butlast)
  ultimately show ?thesis
    using sublist_order.order_trans by blast
qed

lemma parse_mailbox_unmarked:
  assumes "\<not> contains gmail_marker m"
  shows "\<not> contains gmail_marker (parse_mailbox m)"
  using assms parse_mailbox_sublist [of m] sublist_order.order_trans
  unfolding contains_sublist by blast

lemma wanted_filter:
  "wanted ms = map parse_mailbox (filter (\<lambda>m. \<not> contains gmail_marker m) ms)"
  by (induction ms) auto

subsection \<open>The ten sessions\<close>

text \<open>
  All sessions are logged in to the same account: what a fetch operation returns does not
  depend on the session it is called on.
\<close>

lemma connections_nth:
  "i < CONNECTION_POOL_SIZE \<Longrightarrow> connections imaplib h u p ! i = Gmail imaplib h u p i"
  by (simp add: connections_def)

lemma connections_length: "length (connections imaplib h u p) = CONNECTION_POOL_SIZE"
  by (simp add: connections_def)

lemma fetch_message_ids_Gmail:
  "fetch_message_ids (Gmail imaplib h u p c) = fetch_message_ids (Gmail imaplib h u p 0)"
  by (rule ext) (simp add: fetch_message_ids_def imaplib_select_def Gmail_def)

lemma fetch_message_Gmail:
  "fetch_message (Gmail imaplib h u p c) = fetch_message (Gmail imaplib h u p 0)"
  by (intro ext) (simp add: fetch_message_def imaplib_select_def Gmail_def)

lemma call_fetch_message_ids_pool:
  assumes "c < CONNECTION_POOL_SIZE"
  shows "call_fetch_message_ids (connections imaplib h u p) c mailbox
           = fetch_message_ids (Gmail imaplib h u p 0) mailbox"
  using assms fetch_message_ids_Gmail [of imaplib h u p c]
  by (simp add: call_fetch_message_ids_def connections_length connections_nth)

lemma call_fetch_message_pool:
  assumes "c < CONNECTION_POOL_SIZE"
  shows "call_fetch_message (connections imaplib h u p) c func_args
           = fetch_message (Gmail imaplib h u p 0) (fst func_args) (snd func_args)"
  using assms fetch_message_Gmail [of imaplib h u p c]
  by (simp add: call_fetch_message_def connections_length connections_nth)

lemma call_fetch_message_ids_Inr:
  assumes "call_fetch_message_ids (connections imaplib h u p) c mailbox = Inr r"
  shows "fetch_message_ids (Gmail imaplib h u p 0) mailbox = Inr r"
proof -
  from assms have "c < CONNECTION_POOL_SIZE"
    by (auto simp: call_fetch_message_ids_def connections_length split: if_splits)
  with assms show ?thesis by (simp add: call_fetch_message_ids_pool)
qed

lemma call_fetch_message_Inr:
  assumes "call_fetch_message (connections imaplib h u p) c func_args = Inr r"
  shows "fetch_message (Gmail imaplib h u p 0) (fst func_args) (snd func_args) = Inr r"
proof -
  from assms have "c < CONNECTION_POOL_SIZE"
    by (auto simp: call_fetch_message_def connections_length split: if_splits)
  with assms show ?thesis by (simp add: call_fetch_message_pool)
qed

subsection \<open>The events of a run\<close>

text \<open>
  The five ways an event can happen. A thread that runs the three events of one call in a
  row does what \<open>round_robin_connections\<close> does when it is run alone.
\<close>

lemma step_cases [consumes 1, case_names start_raise start_ok work_raise work_ok finish]:
  assumes "step meth ev s = Some s'"
  obtains
    (start_raise) w i args where
      "ev = Start w i" "w < threads s" "idle w s" "i < length (calls s)"
      "calls s ! i = Pending args" "avail s = []" "s' = raise_in i IndexError s"
  | (start_ok) w i args where
      "ev = Start w i" "w < threads s" "idle w s" "i < length (calls s)"
      "calls s ! i = Pending args" "avail s \<noteq> []"
      "s' = s\<lparr>avail := butlast (avail s),
                calls := (calls s)[i := Holding args w (last (avail s))]\<rparr>"
  | (work_raise) i args w c e where
      "ev = Work i" "i < length (calls s)" "calls s ! i = Holding args w c"
      "meth c args = Inl e" "s' = raise_in i e (s\<lparr>abandoned := c # abandoned s\<rparr>)"
  | (work_ok) i args w c res where
      "ev = Work i" "i < length (calls s)" "calls s ! i = Holding args w c"
      "meth c args = Inr res" "s' = s\<lparr>calls := (calls s)[i := Returning w c res]\<rparr>"
  | (finish) i w c res where
      "ev = Finish i" "i < length (calls s)" "calls s ! i = Returning w c res"
      "s' = s\<lparr>avail := avail s @ [c], calls := (calls s)[i := Returned res]\<rparr>"
proof (cases ev)
  case (Start w i)
  with assms obtain args where *: "w < threads s" "idle w s" "i < length (calls s)"
      "calls s ! i = Pending args"
    by (auto split: if_splits call.splits)
  show ?thesis
  proof (cases "avail s = []")
    case True
    with assms Start * have "s' = raise_in i IndexError s"
      by (simp add: acquire_def)
    with Start * True show ?thesis by (rule start_raise)
  next
    case False
    with assms Start * have "s' = s\<lparr>avail := butlast (avail s),
                calls := (calls s)[i := Holding args w (last (avail s))]\<rparr>"
      by (simp add: acquire_def)
    with Start * False show ?thesis by (rule start_ok)
  qed
next
  case (Work i)
  with assms obtain args w c where *: "i < length (calls s)" "calls s ! i = Holding args w c"
    by (auto split: if_splits call.splits)
  show ?thesis
  proof (cases "meth c args")
    case (Inl e)
    with assms Work * have "s' = raise_in i e (s\<lparr>abandoned := c # abandoned s\<rparr>)"
      by simp
    with Work * Inl show ?thesis by (rule work_raise)
  next
    case (Inr res)
    with assms Work * have "s' = s\<lparr>calls := (calls s)[i := Returning w c res]\<rparr>"
      by simp
    with Work * Inr show ?thesis by (rule work_ok)
  qed
next
  case (Finish i)
  with assms obtain w c res where *: "i < length (calls s)" "calls s ! i = Returning w c res"
    by (auto split: if_splits call.splits)
  with assms Finish
  have "s' = s\<lparr>avail := avail s @ [c], calls := (calls s)[i := Returned res]\<rparr>"
    by (simp add: release_def)
  with Finish * show ?thesis by (rule finish)
qed

lemma step_threads: "step meth ev s = Some s' \<Longrightarrow> threads s' = threads s"
  by (cases rule: step_cases) (auto simp: raise_in_def)

lemma run_threads: "run meth evs s = Some s' \<Longrightarrow> threads s' = threads s"
proof (induction evs arbitrary: s)
  case Nil
  then show ?case by simp
next
  case (Cons ev evs)
  then show ?case by (auto split: option.splits dest: step_threads)
qed

lemma run_append:
  "run meth (evs @ evs') s =
     (case run meth evs s of None \<Rightarrow> None | Some s1 \<Rightarrow> run meth evs' s1)"
  by (induction evs arbitrary: s) (auto split: option.splits)

lemma run_one_call:
  assumes "i < length (calls s)" "calls s ! i = Pending args" "w < threads s" "idle w s"
    and "round_robin_connections meth args (avail s) = (Inr res, a)"
  shows "run meth [Start w i, Work i, Finish i] s
           = Some (s\<lparr>avail := a, calls := (calls s)[i := Returned res]\<rparr>)"
proof -
  from assms(5) obtain c where c: "acquire (avail s) = Inr (c, butlast (avail s))"
      "meth c args = Inr res" "a = release c (butlast (avail s))"
    by (auto simp: round_robin_connections_def acquire_def split: sum.splits if_splits)
  with assms(1-4) show ?thesis
    by (simp add: release_def)
qed

lemma run_one_call_raises:
  assumes "i < length (calls s)" "calls s ! i = Pending args" "w < threads s" "idle w s"
    and "round_robin_connections meth args (avail s) = (Inl e, a)"
  shows "\<exists>evs s'. run meth evs s = Some s' \<and> calls s' ! i = Raised e \<and> avail s' = a"
proof (cases "acquire (avail s)")
  case (Inl e')
  with assms(5) have "e' = e" "a = avail s"
    by (simp_all add: round_robin_connections_def)
  with Inl assms(1-4) have "run meth [Start w i] s = Some (raise_in i e s)"
    by simp
  moreover have "calls (raise_in i e s) ! i = Raised e \<and> avail (raise_in i e s) = a"
    using assms(1) \<open>a = avail s\<close> by (simp add: raise_in_def)
  ultimately show ?thesis by blast
next
  case (Inr p)
  then obtain c a' where p: "p = (c, a')" by (cases p)
  with Inr assms(5) have m: "meth c args = Inl e" "a = a'"
    by (auto simp: round_robin_connections_def split: sum.splits)
  with Inr p assms(1-4)
  have "run meth [Start w i, Work i] s
          = Some (raise_in i e (s\<lparr>avail := a', calls := (calls s)[i := Holding args w c],
                                   abandoned := c # abandoned s\<rparr>))"
    by simp
  moreover have "calls (raise_in i e (s\<lparr>avail := a', calls := (calls s)[i := Holding args w c],
                                   abandoned := c # abandoned s\<rparr>)) ! i = Raised e
                 \<and> avail (raise_in i e (s\<lparr>avail := a', calls := (calls s)[i := Holding args w c],
                                   abandoned := c # abandoned s\<rparr>)) = a"
    using assms(1) m by (simp add: raise_in_def)
  ultimately show ?thesis by blast
qed

subsection \<open>Replacing one element of a list\<close>

lemma concat_map_update:
  "i < length xs \<Longrightarrow>
     mset (concat (map g (xs[i := x]))) + mset (g (xs ! i)) = mset (concat (map g xs)) + mset (g x)"
proof (induction xs arbitrary: i)
  case Nil
  then show ?case by simp
next
  case (Cons a xs)
  then show ?case by (cases i) auto
qed

lemma filter_update_length:
  "i < length xs \<Longrightarrow>
     length (filter P (xs[i := x])) + (if P (xs ! i) then 1 else 0)
       = length (filter P xs) + (if P x then 1 else 0)"
proof (induction xs arbitrary: i)
  case Nil
  then show ?case by simp
next
  case (Cons a xs)
  then show ?case by (cases i) auto
qed

lemma sum_list_update:
  "i < length xs \<Longrightarrow>
     sum_list (map f (xs[i := x])) + f (xs ! i) = sum_list (map f xs) + (f x :: nat)"
proof (induction xs arbitrary: i)
  case Nil
  then show ?case by simp
next
  case (Cons a xs)
  then show ?case by (cases i) auto
qed

lemma set_update_cases:
  "y \<in> set (xs[i := x]) \<Longrightarrow> y = x \<or> y \<in> set xs"
  by (metis in_set_conv_nth length_list_update nth_list_update_eq nth_list_update_neq)

lemma set_update_keeps:
  "y \<in> set xs \<Longrightarrow> i < length xs \<Longrightarrow> y \<noteq> xs ! i \<Longrightarrow> y \<in> set (xs[i := x])"
  by (metis in_set_conv_nth length_list_update nth_list_update_neq)

lemma filter_nonempty: "i < length xs \<Longrightarrow> P (xs ! i) \<Longrightarrow> 0 < length (filter P xs)"
  by (metis filter_empty_conv length_greater_0_conv nth_mem)

lemma held_update:
  assumes "i < length (calls s)"
  shows "mset (held (s\<lparr>calls := (calls s)[i := x]\<rparr>)) + mset (call_connection (calls s ! i))
         = mset (held s) + mset (call_connection x)"
  using concat_map_update [OF assms, of call_connection x] by (simp add: held_def)

lemma held_simps [simp]:
  "held (s\<lparr>avail := a\<rparr>) = held s"
  "held (s\<lparr>abandoned := b\<rparr>) = held s"
  "held (s\<lparr>failure := f\<rparr>) = held s"
  by (simp_all add: held_def)

lemma held_update_length:
  assumes "i < length (calls s)"
  shows "length (held (s\<lparr>calls := (calls s)[i := x]\<rparr>)) + length (call_connection (calls s ! i))
         = length (held s) + length (call_connection x)"
proof -
  have "size (mset (held (s\<lparr>calls := (calls s)[i := x]\<rparr>)) + mset (call_connection (calls s ! i)))
        = size (mset (held s) + mset (call_connection x))"
    using held_update [OF assms, of x] by simp
  then show ?thesis by simp
qed

lemma held_map_async: "held (map_async n a tasks) = []"
  by (induction tasks) (auto simp: held_def map_async_def)

subsection \<open>Every id is available or taken\<close>

lemma step_conserved:
  assumes "step meth ev s = Some s'" and "conserved avail0 s"
  shows "conserved avail0 s'"
  using assms(1)
proof (cases rule: step_cases)
  case (start_raise w i args)
  have "mset (held s') = mset (held s)"
    using held_update [OF start_raise(4), of "Raised IndexError"] start_raise
    by (simp add: raise_in_def held_def)
  then show ?thesis using assms(2) start_raise
    by (simp add: conserved_def taken_def raise_in_def)
next
  case (start_ok w i args)
  have "mset (held s') = mset (held s) + {#last (avail s)#}"
    using held_update [OF start_ok(4), of "Holding args w (last (avail s))"] start_ok
    by (simp add: held_def)
  moreover have "mset (avail s) = mset (butlast (avail s)) + {#last (avail s)#}"
    using start_ok(6) by (metis append_butlast_last_id mset.simps(1) mset.simps(2) mset_append)
  ultimately show ?thesis using assms(2) start_ok
    by (simp add: conserved_def taken_def)
next
  case (work_raise i args w c e)
  have "mset (held s) = add_mset c (mset (held s'))"
    using held_update [OF work_raise(2), of "Raised e"] work_raise
    by (simp add: raise_in_def held_def)
  moreover have "abandoned s' = c # abandoned s" "avail s' = avail s"
    using work_raise by (simp_all add: raise_in_def)
  ultimately show ?thesis using assms(2)
    by (simp add: conserved_def taken_def)
next
  case (work_ok i args w c res)
  have "mset (held s') = mset (held s)"
    using held_update [OF work_ok(2), of "Returning w c res"] work_ok
    by (simp add: held_def)
  then show ?thesis using assms(2) work_ok
    by (simp add: conserved_def taken_def)
next
  case (finish i w c res)
  have "mset (held s) = add_mset c (mset (held s'))"
    using held_update [OF finish(2), of "Returned res"] finish
    by (simp add: held_def)
  moreover have "abandoned s' = abandoned s" "avail s' = avail s @ [c]"
    using finish by simp_all
  ultimately show ?thesis using assms(2)
    by (simp add: conserved_def taken_def)
qed

lemma run_conserved:
  "run meth evs s = Some s' \<Longrightarrow> conserved avail0 s \<Longrightarrow> conserved avail0 s'"
proof (induction evs arbitrary: s)
  case Nil
  then show ?case by simp
next
  case (Cons ev evs)
  then show ?case by (auto split: option.splits dest: step_conserved)
qed

lemma map_async_conserved: "conserved a (map_async n a tasks)"
  by (simp add: conserved_def taken_def held_map_async) (simp add: map_async_def)

lemma step_counted:
  assumes "step meth ev s = Some s'" and "counted n s"
  shows "counted n s'"
  using assms(1)
proof (cases rule: step_cases)
  case (start_raise w i args)
  have "length (held s') = length (held s)"
    using held_update_length [OF start_raise(4), of "Raised IndexError"] start_raise
    by (simp add: raise_in_def held_def)
  moreover have "length (filter is_pending (calls s')) + 1 = length (filter is_pending (calls s))"
    using filter_update_length [OF start_raise(4), of is_pending "Raised IndexError"] start_raise
    by (simp add: raise_in_def)
  moreover have "abandoned s' = abandoned s"
    using start_raise by (simp add: raise_in_def)
  ultimately show ?thesis using assms(2)
    by (simp add: counted_def taken_def)
next
  case (start_ok w i args)
  have "length (held s') = length (held s) + 1"
    using held_update_length [OF start_ok(4), of "Holding args w (last (avail s))"] start_ok
    by (simp add: held_def)
  moreover have "length (filter is_pending (calls s')) + 1 = length (filter is_pending (calls s))"
    using filter_update_length [OF start_ok(4), of is_pending "Holding args w (last (avail s))"]
      start_ok
    by simp
  moreover have "abandoned s' = abandoned s"
    using start_ok by simp
  ultimately show ?thesis using assms(2)
    by (simp add: counted_def taken_def)
next
  case (work_raise i args w c e)
  have "length (held s') + 1 = length (held s)"
    using held_update_length [OF work_raise(2), of "Raised e"] work_raise
    by (simp add: raise_in_def held_def)
  moreover have "length (filter is_pending (calls s')) = length (filter is_pending (calls s))"
    using filter_update_length [OF work_raise(2), of is_pending "Raised e"] work_raise
    by (simp add: raise_in_def)
  moreover have "abandoned s' = c # abandoned s"
    using work_raise by (simp add: raise_in_def)
  ultimately show ?thesis using assms(2)
    by (simp add: counted_def taken_def)
next
  case (work_ok i args w c res)
  have "length (held s') = length (held s)"
    using held_update_length [OF work_ok(2), of "Returning w c res"] work_ok
    by (simp add: held_def)
  moreover have "length (filter is_pending (calls s')) = length (filter is_pending (calls s))"
    using filter_update_length [OF work_ok(2), of is_pending "Returning w c res"] work_ok
    by simp
  moreover have "abandoned s' = abandoned s"
    using work_ok by simp
  ultimately show ?thesis using assms(2)
    by (simp add: counted_def taken_def)
next
  case (finish i w c res)
  have "length (held s') + 1 = length (held s)"
    using held_update_length [OF finish(2), of "Returned res"] finish
    by (simp add: held_def)
  moreover have "length (filter is_pending (calls s')) = length (filter is_pending (calls s))"
    using filter_update_length [OF finish(2), of is_pending "Returned res"] finish
    by simp
  moreover have "abandoned s' = abandoned s"
    using finish by simp
  ultimately show ?thesis using assms(2)
    by (simp add: counted_def taken_def)
qed

lemma map_async_counted: "counted (length tasks) (map_async n a (tasks :: 't list) :: ('t, 'r) run_state)"
proof -
  have "length (filter is_pending (map Pending tasks :: ('t, 'r) call list)) = length tasks"
    by (induction tasks) auto
  then show ?thesis
    by (simp add: counted_def taken_def held_map_async) (simp add: map_async_def)
qed

subsection \<open>The recorded failure\<close>

lemma step_recorded:
  assumes "step meth ev s = Some s'" and "recorded s"
  shows "recorded s'"
  using assms(1)
proof (cases rule: step_cases)
  case (start_raise w i args)
  then show ?thesis using assms(2)
    by (auto simp: recorded_def raise_in_def set_update_memI split: option.splits
        intro: set_update_keeps)
next
  case (start_ok w i args)
  then show ?thesis using assms(2)
    by (auto simp: recorded_def dest!: set_update_cases intro: set_update_keeps)
next
  case (work_raise i args w c e)
  then show ?thesis using assms(2)
    by (auto simp: recorded_def raise_in_def set_update_memI split: option.splits
        intro: set_update_keeps)
next
  case (work_ok i args w c res)
  then show ?thesis using assms(2)
    by (auto simp: recorded_def dest!: set_update_cases intro: set_update_keeps)
next
  case (finish i w c res)
  then show ?thesis using assms(2)
    by (auto simp: recorded_def dest!: set_update_cases intro: set_update_keeps)
qed

lemma map_async_recorded: "recorded (map_async n a tasks)"
  by (auto simp: recorded_def map_async_def)

subsection \<open>What stands at a position belongs to its task\<close>

lemma aligned_update:
  assumes "aligned ids x meth tasks s" "i < length (calls s)"
    and "call_ok ids x meth (tasks ! i) c"
    and "calls s' = (calls s)[i := c]"
  shows "aligned ids x meth tasks s'"
  using assms by (auto simp: aligned_def nth_list_update)

lemma step_aligned:
  assumes "step meth ev s = Some s'"
    and al: "aligned (set avail0) x meth tasks s"
    and co: "conserved avail0 s"
    and cn: "counted (length tasks) s"
    and x: "x \<or> length tasks \<le> length avail0"
  shows "aligned (set avail0) x meth tasks s'"
  using assms(1)
proof (cases rule: step_cases)
  case (start_raise w i args)
  have "x"
  proof (rule ccontr)
    assume "\<not> x"
    with x have le: "length tasks \<le> length avail0" by simp
    from co start_raise(6) have "mset (taken s) = mset avail0"
      by (simp add: conserved_def)
    then have "length (taken s) = length avail0"
      by (metis size_mset)
    moreover have "0 < length (filter is_pending (calls s))"
      using filter_nonempty [OF start_raise(4), of is_pending] start_raise(5) by simp
    moreover from cn have "length (taken s) + length (filter is_pending (calls s)) \<le> length tasks"
      by (simp add: counted_def)
    ultimately show False using le by linarith
  qed
  then have "call_ok (set avail0) x meth (tasks ! i) (Raised IndexError)" by simp
  with al start_raise(4) show ?thesis
    by (rule aligned_update) (simp add: start_raise raise_in_def)
next
  case (start_ok w i args)
  from co have "set (avail s) \<subseteq> set avail0"
    by (metis conserved_def mset_subset_eq_add_left set_mset_mono set_mset_mset)
  with start_ok(6) have "last (avail s) \<in> set avail0" by auto
  moreover from al start_ok have "args = tasks ! i"
    by (auto simp: aligned_def)
  ultimately have "call_ok (set avail0) x meth (tasks ! i) (Holding args w (last (avail s)))"
    by simp
  with al start_ok(4) show ?thesis
    by (rule aligned_update) (simp add: start_ok)
next
  case (work_raise i args w c e)
  from al work_raise have "args = tasks ! i" "c \<in> set avail0"
    by (auto simp: aligned_def)
  with work_raise(4) have "call_ok (set avail0) x meth (tasks ! i) (Raised e)"
    by auto
  with al work_raise(2) show ?thesis
    by (rule aligned_update) (simp add: work_raise raise_in_def)
next
  case (work_ok i args w c res)
  from al work_ok have "args = tasks ! i" "c \<in> set avail0"
    by (auto simp: aligned_def)
  with work_ok(4) have "call_ok (set avail0) x meth (tasks ! i) (Returning w c res)"
    by auto
  with al work_ok(2) show ?thesis
    by (rule aligned_update) (simp add: work_ok)
next
  case (finish i w c res)
  from al finish have "c \<in> set avail0" "meth c (tasks ! i) = Inr res"
    by (auto simp: aligned_def)
  then have "call_ok (set avail0) x meth (tasks ! i) (Returned res)"
    by auto
  with al finish(2) show ?thesis
    by (rule aligned_update) (simp add: finish)
qed

lemma map_async_aligned: "aligned ids x meth tasks (map_async n a tasks)"
  by (simp add: aligned_def map_async_def)

lemma step_invariant:
  assumes "step meth ev s = Some s'" "invariant avail0 x meth tasks s"
    "x \<or> length tasks \<le> length avail0"
  shows "invariant avail0 x meth tasks s'"
  using assms unfolding invariant_def
  by (auto intro: step_conserved step_counted step_recorded step_aligned)

lemma run_invariant:
  "run meth evs s = Some s' \<Longrightarrow> invariant avail0 x meth tasks s \<Longrightarrow>
   x \<or> length tasks \<le> length avail0 \<Longrightarrow> invariant avail0 x meth tasks s'"
proof (induction evs arbitrary: s)
  case Nil
  then show ?case by simp
next
  case (Cons ev evs)
  from Cons.prems(1) obtain s1 where s1: "step meth ev s = Some s1" "run meth evs s1 = Some s'"
    by (auto split: option.splits)
  from s1(1) Cons.prems(2,3) have "invariant avail0 x meth tasks s1"
    by (rule step_invariant)
  with s1(2) Cons.prems(3) show ?case by (intro Cons.IH)
qed

lemma map_async_invariant: "invariant a x meth tasks (map_async n a tasks)"
  unfolding invariant_def
  by (intro conjI map_async_conserved map_async_counted map_async_recorded map_async_aligned)

lemma reachable_invariant:
  assumes "run meth evs (map_async n a tasks) = Some s" "x \<or> length tasks \<le> length a"
  shows "invariant a x meth tasks s"
  using assms(1) map_async_invariant assms(2) by (rule run_invariant)

subsection \<open>What get() returns\<close>

lemma collect_map_Returned: "collect (map Returned rs) = Some rs"
  by (induction rs) auto

lemma collect_Some_D: "collect cs = Some rs \<Longrightarrow> cs = map Returned rs"
  by (induction cs arbitrary: rs rule: collect.induct) (auto split: option.splits)

lemma collect_Some: "collect cs = Some rs \<longleftrightarrow> cs = map Returned rs"
  using collect_map_Returned collect_Some_D by blast

lemma get_Inr: "get s = Some (Inr rs) \<longleftrightarrow> failure s = None \<and> calls s = map Returned rs"
  by (auto simp: get_def collect_map_Returned dest: collect_Some_D split: option.splits)

lemma get_Inl: "get s = Some (Inl e) \<longleftrightarrow> failure s = Some e"
  by (auto simp: get_def split: option.splits)

lemma returned_aligned:
  assumes "aligned ids x meth tasks s" "get s = Some (Inr rs)"
  shows "length rs = length tasks
         \<and> (\<forall>i<length tasks. \<exists>c\<in>ids. meth c (tasks ! i) = Inr (rs ! i))"
proof -
  from assms(2) have c: "calls s = map Returned rs" by (simp add: get_Inr)
  with assms(1) have len: "length rs = length tasks" by (simp add: aligned_def)
  moreover have "\<exists>c\<in>ids. meth c (tasks ! i) = Inr (rs ! i)" if "i < length tasks" for i
  proof -
    from assms(1) that have "call_ok ids x meth (tasks ! i) (calls s ! i)"
      by (simp add: aligned_def)
    with c len that show ?thesis by simp
  qed
  ultimately show ?thesis by simp
qed

lemma all_returned:
  "\<forall>x \<in> set cs. \<not> is_raised x \<and> weight x = 0 \<Longrightarrow> \<exists>rs. cs = map Returned rs"
proof (induction cs)
  case Nil
  then show ?case by simp
next
  case (Cons a cs)
  then obtain rs where "cs = map Returned rs" by auto
  moreover from Cons.prems obtain r where "a = Returned r" by (cases a) auto
  ultimately have "a # cs = map Returned (r # rs)" by simp
  then show ?case by (rule exI)
qed

lemma idle_get:
  assumes "\<not> busy s" "recorded s"
  shows "get s \<noteq> None"
proof (cases "failure s")
  case (Some e)
  then show ?thesis by (simp add: get_def)
next
  case None
  with assms(2) have "\<forall>x \<in> set (calls s). \<not> is_raised x"
    by (simp add: recorded_def)
  with assms(1) have "\<forall>x \<in> set (calls s). \<not> is_raised x \<and> weight x = 0"
    by (simp add: busy_def)
  then obtain rs where "calls s = map Returned rs"
    using all_returned by blast
  with None have "get s = Some (Inr rs)" by (simp add: get_Inr)
  then show ?thesis by simp
qed

lemma get_Inr_taken:
  assumes "recorded s" "get s = Some (Inr rs)"
  shows "taken s = []"
proof -
  from assms(2) have f: "failure s = None" and c: "calls s = map Returned rs"
    by (simp_all add: get_Inr)
  have "concat (map call_connection (map Returned rs :: ('a, 'b) call list)) = []"
    by (induction rs) auto
  with c have "held s = []" by (simp add: held_def)
  moreover from assms(1) f have "abandoned s = []" by (simp add: recorded_def)
  ultimately show ?thesis by (simp add: taken_def)
qed

lemma raised_get:
  assumes "recorded s" "i < length (calls s)" "calls s ! i = Raised e"
  shows "\<exists>e'. get s = Some (Inl e') \<and> Raised e' \<in> set (calls s)"
proof -
  from assms(2,3) have "Raised e \<in> set (calls s)"
    by (metis nth_mem)
  with assms(1) obtain e' where "failure s = Some e'"
    by (cases "failure s") (auto simp: recorded_def)
  with assms(1) show ?thesis
    by (auto simp: recorded_def get_Inl)
qed

lemma job_values:
  assumes "run meth evs (map_async n avail0 tasks) = Some s"
    and "\<And>c t r. meth c t = Inr r \<Longrightarrow> g t = Inr r"
    and "get s = Some (Inr rs)"
  shows "map g tasks = map Inr rs"
proof -
  have "invariant avail0 True meth tasks s"
    using assms(1) by (rule reachable_invariant) simp
  then have "length rs = length tasks"
    and "\<forall>i<length tasks. \<exists>c\<in>set avail0. meth c (tasks ! i) = Inr (rs ! i)"
    using returned_aligned assms(3) unfolding invariant_def by blast+
  with assms(2) show ?thesis
    by (auto simp: list_eq_iff_nth_eq)
qed

lemma job_failure:
  assumes "run meth evs (map_async n avail0 tasks) = Some s"
    and "length tasks \<le> length avail0"
    and "\<And>c t. c \<in> set avail0 \<Longrightarrow> meth c t = g t"
    and "get s = Some (Inl e)"
  shows "\<exists>i<length tasks. g (tasks ! i) = Inl e"
proof -
  have inv: "invariant avail0 False meth tasks s"
    using assms(1) by (rule reachable_invariant) (simp add: assms(2))
  from assms(4) have "failure s = Some e" by (simp add: get_Inl)
  with inv have "Raised e \<in> set (calls s)"
    by (simp add: invariant_def recorded_def)
  then obtain i where i: "i < length (calls s)" "calls s ! i = Raised e"
    by (auto simp: in_set_conv_nth)
  with inv have "i < length tasks" "call_ok (set avail0) False meth (tasks ! i) (Raised e)"
    by (auto simp: invariant_def aligned_def)
  with assms(3) show ?thesis by auto
qed

lemma job_pool_restored:
  assumes "run meth evs (map_async n avail0 tasks) = Some s" "get s = Some (Inr rs)"
  shows "mset (avail s) = mset avail0"
proof -
  have inv: "invariant avail0 True meth tasks s"
    using assms(1) by (rule reachable_invariant) simp
  with assms(2) have "taken s = []"
    by (simp add: invariant_def get_Inr_taken)
  with inv show ?thesis by (simp add: invariant_def conserved_def)
qed

subsection \<open>Every run ends\<close>

lemma step_todo:
  assumes "step meth ev s = Some s'"
  shows "todo s' < todo s"
  using assms
proof (cases rule: step_cases)
  case (start_raise w i args)
  then show ?thesis
    using sum_list_update [OF start_raise(4), of weight "Raised IndexError"]
    by (simp add: todo_def raise_in_def)
next
  case (start_ok w i args)
  then show ?thesis
    using sum_list_update [OF start_ok(4), of weight "Holding args w (last (avail s))"]
    by (simp add: todo_def)
next
  case (work_raise i args w c e)
  then show ?thesis
    using sum_list_update [OF work_raise(2), of weight "Raised e"]
    by (simp add: todo_def raise_in_def)
next
  case (work_ok i args w c res)
  then show ?thesis
    using sum_list_update [OF work_ok(2), of weight "Returning w c res"]
    by (simp add: todo_def)
next
  case (finish i w c res)
  then show ?thesis
    using sum_list_update [OF finish(2), of weight "Returned res"]
    by (simp add: todo_def)
qed

lemma run_todo: "run meth evs s = Some s' \<Longrightarrow> todo s' + length evs \<le> todo s"
proof (induction evs arbitrary: s)
  case Nil
  then show ?case by simp
next
  case (Cons ev evs)
  from Cons.prems obtain s1 where s1: "step meth ev s = Some s1" "run meth evs s1 = Some s'"
    by (auto split: option.splits)
  from Cons.IH [OF s1(2)] step_todo [OF s1(1)] show ?case by simp
qed

lemma todo_map_async: "todo (map_async n a tasks) = 3 * length tasks"
  by (induction tasks) (auto simp: todo_def map_async_def)

lemma progress:
  assumes "busy s" "0 < threads s"
  shows "\<exists>ev s'. step meth ev s = Some s'"
proof (cases "\<exists>x \<in> set (calls s). thread_of x \<noteq> None")
  case True
  then obtain i where i: "i < length (calls s)" "thread_of (calls s ! i) \<noteq> None"
    by (auto simp: in_set_conv_nth)
  then show ?thesis
  proof (cases "calls s ! i")
    case (Holding args w c)
    with i have "step meth (Work i) s \<noteq> None"
      by (cases "meth c args") auto
    then show ?thesis by blast
  next
    case (Returning w c res)
    with i have "step meth (Finish i) s \<noteq> None" by auto
    then show ?thesis by blast
  qed auto
next
  case False
  then have idle: "idle 0 s"
    by (auto simp: idle_def list_all_iff)
  from assms(1) obtain i where i: "i < length (calls s)" "weight (calls s ! i) \<noteq> 0"
    by (auto simp: busy_def in_set_conv_nth)
  moreover from False i(1) have "thread_of (calls s ! i) = None"
    using nth_mem by blast
  ultimately obtain args where "calls s ! i = Pending args"
    by (cases "calls s ! i") auto
  with i idle assms(2) have "step meth (Start 0 i) s \<noteq> None"
    by (cases "acquire (avail s)") auto
  then show ?thesis by blast
qed

lemma completes:
  assumes "0 < threads s"
  shows "\<exists>evs s'. run meth evs s = Some s' \<and> \<not> busy s'"
  using assms
proof (induction "todo s" arbitrary: s rule: less_induct)
  case less
  show ?case
  proof (cases "busy s")
    case False
    then have "run meth [] s = Some s \<and> \<not> busy s" by simp
    then show ?thesis by blast
  next
    case True
    with less.prems obtain ev s1 where s1: "step meth ev s = Some s1"
      using progress by blast
    then have "todo s1 < todo s" "0 < threads s1"
      using less.prems by (simp_all add: step_todo step_threads)
    with less.hyps obtain evs s' where "run meth evs s1 = Some s'" "\<not> busy s'"
      by blast
    with s1 have "run meth (ev # evs) s = Some s' \<and> \<not> busy s'" by simp
    then show ?thesis by blast
  qed
qed

subsection \<open>As long as no call has raised\<close>

text \<open>
  A thread is inside at most one call, so fewer connections are held than there are
  threads when a free thread comes for one.
\<close>

lemma in_flight_update:
  assumes "i < length (calls s)" "calls s' = (calls s)[i := x]"
  shows "mset (in_flight s') + mset (call_thread (calls s ! i))
         = mset (in_flight s) + mset (call_thread x)"
  using concat_map_update [OF assms(1), of call_thread x] assms(2) by (simp add: in_flight_def)

lemma idle_in_flight: "idle w s \<longleftrightarrow> w \<notin> set (in_flight s)"
proof -
  have "list_all (\<lambda>x. thread_of x \<noteq> Some w) cs \<longleftrightarrow> w \<notin> set (concat (map call_thread cs))"
    for cs :: "('a, 'b) call list"
  proof (induction cs)
    case Nil
    then show ?case by simp
  next
    case (Cons a cs)
    then show ?case by (cases a) auto
  qed
  then show ?thesis by (simp add: idle_def in_flight_def)
qed

lemma length_held_in_flight: "length (held s) = length (in_flight s)"
proof -
  have "length (concat (map call_connection cs)) = length (concat (map call_thread cs))"
    for cs :: "('a, 'b) call list"
  proof (induction cs)
    case Nil
    then show ?case by simp
  next
    case (Cons a cs)
    then show ?case by (cases a) auto
  qed
  then show ?thesis by (simp add: held_def in_flight_def)
qed

lemma scheduled_same:
  assumes "scheduled s" "mset (in_flight s') = mset (in_flight s)" "threads s' = threads s"
  shows "scheduled s'"
  using assms unfolding scheduled_def
  by (metis mset_eq_imp_distinct_iff mset_eq_setD)

lemma scheduled_less:
  assumes "scheduled s" "mset (in_flight s) = add_mset w (mset (in_flight s'))"
    "threads s' = threads s"
  shows "scheduled s'"
proof -
  from assms(2) have m: "mset (in_flight s) = mset (w # in_flight s')" by simp
  then have "distinct (in_flight s) \<longleftrightarrow> distinct (w # in_flight s')"
    by (rule mset_eq_imp_distinct_iff)
  moreover from m have "set (in_flight s) = set (w # in_flight s')"
    by (rule mset_eq_setD)
  ultimately show ?thesis using assms(1,3) by (auto simp: scheduled_def)
qed

lemma scheduled_more:
  assumes "scheduled s" "mset (in_flight s') = add_mset w (mset (in_flight s))"
    "threads s' = threads s" "w \<notin> set (in_flight s)" "w < threads s"
  shows "scheduled s'"
proof -
  from assms(2) have m: "mset (in_flight s') = mset (w # in_flight s)" by simp
  then have "distinct (in_flight s') \<longleftrightarrow> distinct (w # in_flight s)"
    by (rule mset_eq_imp_distinct_iff)
  moreover from m have "set (in_flight s') = set (w # in_flight s)"
    by (rule mset_eq_setD)
  ultimately show ?thesis using assms(1,3,4,5) by (auto simp: scheduled_def)
qed

lemma step_scheduled:
  assumes "step meth ev s = Some s'" and "scheduled s"
  shows "scheduled s'"
  using assms(1)
proof (cases rule: step_cases)
  case (start_raise w i args)
  have "mset (in_flight s') = mset (in_flight s)"
    using in_flight_update [OF start_raise(4), of s' "Raised IndexError"] start_raise
    by (simp add: raise_in_def)
  with assms(2) show ?thesis
    by (rule scheduled_same) (simp add: start_raise raise_in_def)
next
  case (start_ok w i args)
  have "mset (in_flight s') = add_mset w (mset (in_flight s))"
    using in_flight_update [OF start_ok(4), of s' "Holding args w (last (avail s))"] start_ok
    by simp
  with assms(2) show ?thesis
    by (rule scheduled_more) (use start_ok in \<open>simp_all add: idle_in_flight\<close>)
next
  case (work_raise i args w c e)
  have "mset (in_flight s) = add_mset w (mset (in_flight s'))"
    using in_flight_update [OF work_raise(2), of s' "Raised e"] work_raise
    by (simp add: raise_in_def)
  with assms(2) show ?thesis
    by (rule scheduled_less) (simp add: work_raise raise_in_def)
next
  case (work_ok i args w c res)
  have "mset (in_flight s') = mset (in_flight s)"
    using in_flight_update [OF work_ok(2), of s' "Returning w c res"] work_ok
    by simp
  with assms(2) show ?thesis
    by (rule scheduled_same) (simp add: work_ok)
next
  case (finish i w c res)
  have "mset (in_flight s) = add_mset w (mset (in_flight s'))"
    using in_flight_update [OF finish(2), of s' "Returned res"] finish
    by simp
  with assms(2) show ?thesis
    by (rule scheduled_less) (simp add: finish)
qed

lemma run_scheduled:
  "run meth evs s = Some s' \<Longrightarrow> scheduled s \<Longrightarrow> scheduled s'"
proof (induction evs arbitrary: s)
  case Nil
  then show ?case by simp
next
  case (Cons ev evs)
  then show ?case by (auto split: option.splits dest: step_scheduled)
qed

lemma map_async_scheduled: "scheduled (map_async n a tasks)"
proof -
  have "concat (map call_thread (map Pending tasks :: ('a, 'b) call list)) = []"
    by (induction tasks) auto
  then have "in_flight (map_async n a tasks :: ('a, 'b) run_state) = []"
    by (simp add: in_flight_def map_async_def)
  then show ?thesis by (simp add: scheduled_def)
qed

lemma available_before_raise:
  assumes r: "run meth evs (map_async n avail0 tasks) = Some s"
    and n: "n \<le> length avail0"
    and f: "failure s = None"
    and w: "w < n" "idle w s"
  shows "avail s \<noteq> []"
proof -
  have inv: "invariant avail0 True meth tasks s"
    using r by (rule reachable_invariant) simp
  with f have "abandoned s = []"
    by (simp add: invariant_def recorded_def)
  moreover from inv have "mset (avail s) + mset (taken s) = mset avail0"
    by (simp add: invariant_def conserved_def)
  then have "size (mset (avail s) + mset (taken s)) = size (mset avail0)" by simp
  ultimately have total: "length (avail s) + length (held s) = length avail0"
    by (simp add: taken_def)
  have t: "threads s = n"
    using run_threads [OF r] by (simp add: map_async_def)
  have "scheduled s"
    using r map_async_scheduled by (rule run_scheduled)
  with t have d: "distinct (in_flight s)" and sub: "set (in_flight s) \<subseteq> {0..<n}"
    by (simp_all add: scheduled_def)
  from w(2) have "w \<notin> set (in_flight s)" by (simp add: idle_in_flight)
  with sub w(1) have "set (in_flight s) \<subseteq> {0..<n} - {w}" by auto
  then have "card (set (in_flight s)) \<le> card ({0..<n} - {w})"
    by (intro card_mono) simp_all
  also have "card ({0..<n} - {w}) = n - 1" using w(1) by simp
  finally have "length (in_flight s) \<le> n - 1"
    using d by (simp add: distinct_card)
  with w(1) n total show ?thesis
    by (auto simp: length_held_in_flight)
qed

lemma no_exhaustion_before_raise:
  assumes "run meth evs (map_async n avail0 tasks) = Some s"
    and "n \<le> length avail0"
    and "failure s = None"
    and "step meth (Start w i) s = Some s'"
  shows "failure s' = None \<and> (\<exists>args. calls s' ! i = Holding args w (last (avail s)))"
  using assms(4)
proof (cases rule: step_cases)
  case (start_raise w' i' args)
  have t: "threads s = n"
    using run_threads [OF assms(1)] by (simp add: map_async_def)
  with start_raise have "w' < n" "idle w' s" by simp_all
  with assms(1-3) have "avail s \<noteq> []" by (rule available_before_raise)
  with start_raise show ?thesis by simp
next
  case (start_ok w' i' args)
  with assms(3) show ?thesis by simp
qed simp_all

lemma no_raise_when_calls_succeed:
  assumes "run meth evs (map_async n avail0 tasks) = Some s"
    and "n \<le> length avail0"
    and ok: "\<And>c t. c \<in> set avail0 \<Longrightarrow> \<exists>r. meth c t = Inr r"
  shows "failure s = None"
  using assms(1)
proof (induction evs arbitrary: s rule: rev_induct)
  case Nil
  then have "s = map_async n avail0 tasks" by simp
  then show ?case by (simp add: map_async_def)
next
  case (snoc ev evs)
  from snoc.prems obtain s0 where r: "run meth evs (map_async n avail0 tasks) = Some s0"
    and st: "step meth ev s0 = Some s"
    by (auto simp: run_append split: option.splits)
  from r have f: "failure s0 = None" by (rule snoc.IH)
  have inv: "invariant avail0 True meth tasks s0"
    using r by (rule reachable_invariant) simp
  from st show ?case
  proof (cases rule: step_cases)
    case (start_raise w i args)
    with st have "step meth (Start w i) s0 = Some s" by simp
    with r assms(2) f have "failure s = None"
      using no_exhaustion_before_raise by blast
    then show ?thesis .
  next
    case (start_ok w i args)
    with f show ?thesis by simp
  next
    case (work_raise i args w c e)
    from inv work_raise(2,3) have "c \<in> set avail0"
      by (auto simp: invariant_def aligned_def)
    with ok work_raise(4) show ?thesis by (metis Inl_Inr_False)
  next
    case (work_ok i args w c res)
    with f show ?thesis by simp
  next
    case (finish i w c res)
    with f show ?thesis by simp
  qed
qed

lemma job_returns_when_calls_succeed:
  assumes "run meth evs (map_async n avail0 tasks) = Some s"
    and "n \<le> length avail0"
    and "\<And>c t. c \<in> set avail0 \<Longrightarrow> \<exists>r. meth c t = Inr r"
    and "get s = Some out"
  shows "\<exists>rs. out = Inr rs"
proof -
  from assms(1-3) have "failure s = None" by (rule no_raise_when_calls_succeed)
  with assms(4) show ?thesis
    by (cases out) (simp_all add: get_Inl)
qed

subsection \<open>The outcome of scrape\<close>

lemma scrape_cases [consumes 1, case_names no_threads ids_raised msgs]:
  assumes "scrape imaplib cpu_count evs_ids evs_msgs h u p (Some mbs) = Some out"
  obtains
    (no_threads) "cpu_count = 0" "out = Inl ValueError"
  | (ids_raised) s_ids e where
      "0 < cpu_count"
      "run (call_fetch_message_ids (connections imaplib h u p)) evs_ids
         (map_async (workers (connections imaplib h u p) cpu_count)
            [0..<CONNECTION_POOL_SIZE] mbs) = Some s_ids"
      "get s_ids = Some (Inl e)" "out = Inl e"
  | (msgs) s_ids message_ids s_msgs where
      "0 < cpu_count"
      "run (call_fetch_message_ids (connections imaplib h u p)) evs_ids
         (map_async (workers (connections imaplib h u p) cpu_count)
            [0..<CONNECTION_POOL_SIZE] mbs) = Some s_ids"
      "get s_ids = Some (Inr message_ids)"
      "run (call_fetch_message (connections imaplib h u p)) evs_msgs
         (map_async (workers (connections imaplib h u p) cpu_count)
            (avail s_ids) (flat message_ids)) = Some s_msgs"
      "get s_msgs = Some out"
proof (cases "cpu_count = 0")
  case True
  with assms have "out = Inl ValueError"
    by (simp add: scrape_def workers_def)
  with True show ?thesis by (rule no_threads)
next
  case False
  then have pos: "0 < cpu_count" by simp
  then have w: "\<not> workers (connections imaplib h u p) cpu_count < 1"
    by (simp add: workers_def connections_length CONNECTION_POOL_SIZE_def)
  from assms w obtain s_ids where r1:
    "run (call_fetch_message_ids (connections imaplib h u p)) evs_ids
         (map_async (workers (connections imaplib h u p) cpu_count)
            [0..<CONNECTION_POOL_SIZE] mbs) = Some s_ids"
    unfolding scrape_def Let_def by (auto split: option.splits)
  from assms w r1 obtain o1 where g1: "get s_ids = Some o1"
    unfolding scrape_def Let_def by (auto split: option.splits)
  show ?thesis
  proof (cases o1)
    case (Inl e)
    with assms w r1 g1 have "out = Inl e"
      unfolding scrape_def Let_def by simp
    with pos r1 g1 Inl show ?thesis by (auto intro: ids_raised)
  next
    case (Inr message_ids)
    with assms w r1 g1 obtain s_msgs where
      "run (call_fetch_message (connections imaplib h u p)) evs_msgs
         (map_async (workers (connections imaplib h u p) cpu_count)
            (avail s_ids) (flat message_ids)) = Some s_msgs"
      "get s_msgs = Some out"
      unfolding scrape_def Let_def by (auto split: option.splits)
    with pos r1 g1 Inr show ?thesis by (auto intro: msgs)
  qed
qed

lemma flat_ids_map: "flat_ids mailbox ids = map (Pair mailbox) ids"
  by (induction ids) auto

lemma flat_concat:
  "flat message_ids = concat (map (\<lambda>(mailbox, ids). map (Pair mailbox) ids) message_ids)"
  by (induction message_ids) (auto simp: flat_ids_map)

lemma scrape_outcome:
  assumes s: "scrape imaplib cpu_count evs_ids evs_msgs h u p (Some mbs) = Some out"
    and cpu: "0 < cpu_count"
    and ids: "map (fetch_message_ids (Gmail imaplib h u p 0)) mbs = map Inr message_ids"
    and few: "length mbs \<le> CONNECTION_POOL_SIZE"
             "length (flat message_ids) \<le> CONNECTION_POOL_SIZE"
  shows "(\<forall>e. out = Inl e \<longrightarrow>
            (\<exists>i<length (flat message_ids).
               fetch_message (Gmail imaplib h u p 0)
                 (fst (flat message_ids ! i)) (snd (flat message_ids ! i)) = Inl e))
         \<and> (\<forall>msgs. out = Inr msgs \<longrightarrow>
              map (\<lambda>a. fetch_message (Gmail imaplib h u p 0) (fst a) (snd a)) (flat message_ids)
                = map Inr msgs)"
  using s
proof (cases rule: scrape_cases)
  case no_threads
  with cpu show ?thesis by simp
next
  case (ids_raised s_ids e)
  have "\<exists>i<length mbs. fetch_message_ids (Gmail imaplib h u p 0) (mbs ! i) = Inl e"
    using ids_raised(2) _ _ ids_raised(3)
  proof (rule job_failure)
    show "length mbs \<le> length [0..<CONNECTION_POOL_SIZE]" using few by simp
    show "call_fetch_message_ids (connections imaplib h u p) c t
            = fetch_message_ids (Gmail imaplib h u p 0) t"
      if "c \<in> set [0..<CONNECTION_POOL_SIZE]" for c t
      using that by (simp add: call_fetch_message_ids_pool)
  qed
  then obtain i where "i < length mbs"
    "map (fetch_message_ids (Gmail imaplib h u p 0)) mbs ! i = Inl e"
    by auto
  with ids have False
    by (metis Inl_Inr_False length_map nth_map)
  then show ?thesis ..
next
  case (msgs s_ids ids' s_msgs)
  have "map (fetch_message_ids (Gmail imaplib h u p 0)) mbs = map Inr ids'"
    using msgs(2) _ msgs(3)
  proof (rule job_values)
    show "fetch_message_ids (Gmail imaplib h u p 0) t = Inr r"
      if "call_fetch_message_ids (connections imaplib h u p) c t = Inr r" for c t r
      using that by (rule call_fetch_message_ids_Inr)
  qed
  with ids have "map Inr ids' = (map Inr message_ids :: (error + _) list)" by simp
  then have eq: "ids' = message_ids"
    by (simp add: inj_map_eq_map)
  have pool: "mset (avail s_ids) = mset [0..<CONNECTION_POOL_SIZE]"
    using msgs(2,3) by (rule job_pool_restored)
  then have len: "length (avail s_ids) = CONNECTION_POOL_SIZE"
    by (metis length_upt minus_nat.diff_0 size_mset)
  from pool have mem: "c < CONNECTION_POOL_SIZE" if "c \<in> set (avail s_ids)" for c
    using that by (metis atLeastLessThan_iff mset_eq_setD set_upt)
  have fail: "\<exists>i<length (flat message_ids).
               fetch_message (Gmail imaplib h u p 0)
                 (fst (flat message_ids ! i)) (snd (flat message_ids ! i)) = Inl e"
    if "out = Inl e" for e
  proof -
    have "\<exists>i<length (flat ids').
            (\<lambda>a. fetch_message (Gmail imaplib h u p 0) (fst a) (snd a)) (flat ids' ! i) = Inl e"
      using msgs(4)
    proof (rule job_failure)
      show "length (flat ids') \<le> length (avail s_ids)" using few len eq by simp
      show "call_fetch_message (connections imaplib h u p) c t
              = fetch_message (Gmail imaplib h u p 0) (fst t) (snd t)"
        if "c \<in> set (avail s_ids)" for c t
        using mem [OF that] by (rule call_fetch_message_pool)
      show "get s_msgs = Some (Inl e)" using msgs(5) that by simp
    qed
    with eq show ?thesis by simp
  qed
  have ok: "map (\<lambda>a. fetch_message (Gmail imaplib h u p 0) (fst a) (snd a)) (flat message_ids)
                = map Inr rs"
    if "out = Inr rs" for rs
  proof -
    have "map (\<lambda>a. fetch_message (Gmail imaplib h u p 0) (fst a) (snd a)) (flat ids')
                = map Inr rs"
      using msgs(4)
    proof (rule job_values)
      show "fetch_message (Gmail imaplib h u p 0) (fst t) (snd t) = Inr r"
        if "call_fetch_message (connections imaplib h u p) c t = Inr r" for c t r
        using that by (rule call_fetch_message_Inr)
      show "get s_msgs = Some (Inr rs)" using msgs(5) that by simp
    qed
    with eq show ?thesis by simp
  qed
  from fail ok show ?thesis by blast
qed

lemma scrape_values:
  assumes "scrape imaplib cpu_count evs_ids evs_msgs h u p (Some mbs) = Some (Inr msgs)"
  shows "\<exists>message_ids.
           map (fetch_message_ids (Gmail imaplib h u p 0)) mbs = map Inr message_ids
           \<and> map (\<lambda>a. fetch_message (Gmail imaplib h u p 0) (fst a) (snd a)) (flat message_ids)
               = map Inr msgs"
  using assms
proof (cases rule: scrape_cases)
  case (msgs s_ids message_ids s_msgs)
  have "map (fetch_message_ids (Gmail imaplib h u p 0)) mbs = map Inr message_ids"
    using msgs(2) _ msgs(3)
  proof (rule job_values)
    show "fetch_message_ids (Gmail imaplib h u p 0) t = Inr r"
      if "call_fetch_message_ids (connections imaplib h u p) c t = Inr r" for c t r
      using that by (rule call_fetch_message_ids_Inr)
  qed
  moreover
  have "map (\<lambda>a. fetch_message (Gmail imaplib h u p 0) (fst a) (snd a)) (flat message_ids)
                = map Inr msgs"
    using msgs(4) _ msgs(5)
  proof (rule job_values)
    show "fetch_message (Gmail imaplib h u p 0) (fst t) (snd t) = Inr r"
      if "call_fetch_message (connections imaplib h u p) c t = Inr r" for c t r
      using that by (rule call_fetch_message_Inr)
  qed
  ultimately show ?thesis by blast
qed simp_all

lemma map_Inr_inj: "map Inr xs = map Inr ys \<Longrightarrow> xs = ys"
  by (simp add: inj_map_eq_map)

lemma less_3_cases: "i < Suc (Suc (Suc 0)) \<Longrightarrow> i = 0 \<or> i = Suc 0 \<or> i = Suc (Suc 0)"
  by arith

lemma scenario_message_ids:
  "map (fetch_message_ids (Gmail (\<lambda>h u p. scenario_imap) h u p 0)) [''INBOX'', ''Sent'']
     = map Inr [(''INBOX'', [''1'', ''2'']), (''Sent'', [''3''])]"
  by (simp add: fetch_message_ids_def imaplib_select_def Gmail_def scenario_imap_def IMAP_OK_def isspace_def)

lemma fault_message_ids:
  "map (fetch_message_ids (Gmail (\<lambda>h u p. fault_imap) h u p 0)) [''INBOX'', ''Sent'']
     = map Inr [(''INBOX'', [''1'', ''2'']), (''Sent'', [''3''])]"
  by (simp add: fetch_message_ids_def imaplib_select_def Gmail_def fault_imap_def scenario_imap_def IMAP_OK_def
      isspace_def)

lemma scenario_flat:
  "flat [(''INBOX'', [''1'', ''2'']), (''Sent'', [''3''])]
     = [(''INBOX'', ''1''), (''INBOX'', ''2''), (''Sent'', ''3'')]"
  by simp

section \<open>The listing of mailboxes\<close>

text \<open>
  Claim C7. \<open>get_mailboxes\<close> yields the parsed names of exactly the entries of the raw
  listing that do not contain the marker \<open>[Gmail]\<close>, in the order of the listing; no
  name it yields contains the marker; and \<open>scrape\<close> called without a list of mailboxes
  works on the listing of the first session, \<open>connections[0]\<close>.
\<close>

theorem get_mailboxes_excludes_reserved:
  "get_mailboxes self =
     map parse_mailbox
       (filter (\<lambda>m. \<not> contains gmail_marker m) (snd (imap_list (gmail_imap self))))
   \<and> (\<forall>x \<in> set (get_mailboxes self). \<not> contains gmail_marker x)
   \<and> scrape imaplib cpu_count evs_ids evs_msgs h u p None =
       scrape imaplib cpu_count evs_ids evs_msgs h u p
         (Some (get_mailboxes (Gmail imaplib h u p 0)))"
proof (intro conjI)
  show eq: "get_mailboxes self =
     map parse_mailbox
       (filter (\<lambda>m. \<not> contains gmail_marker m) (snd (imap_list (gmail_imap self))))"
    by (simp add: get_mailboxes_def wanted_filter split: prod.splits)
  show "\<forall>x \<in> set (get_mailboxes self). \<not> contains gmail_marker x"
    unfolding eq using parse_mailbox_unmarked by auto
  have first: "connections imaplib h u p ! 0 = Gmail imaplib h u p 0"
    by (rule connections_nth) (simp add: CONNECTION_POOL_SIZE_def)
  show "scrape imaplib cpu_count evs_ids evs_msgs h u p None =
       scrape imaplib cpu_count evs_ids evs_msgs h u p
         (Some (get_mailboxes (Gmail imaplib h u p 0)))"
    unfolding scrape_def Let_def option.case first by (rule refl)
qed

theorem get_mailboxes_excludes_reserved_witness:
  "get_mailboxes (Gmail (\<lambda>h u p. scenario_imap) ''h'' ''u'' ''p'' 0) = [''INBOX'', ''Sent'']
   \<and> ''INBOX'' \<in> set (get_mailboxes (Gmail (\<lambda>h u p. scenario_imap) ''h'' ''u'' ''p'' 0))
   \<and> \<not> contains gmail_marker ''INBOX''"
proof -
  have "get_mailboxes (Gmail (\<lambda>h u p. scenario_imap) ''h'' ''u'' ''p'' 0) = [''INBOX'', ''Sent'']"
    by (simp add: get_mailboxes_def Gmail_def scenario_imap_def list_line_def dquote_def
        parse_mailbox_def quote_space_quote_def gmail_marker_def)
  moreover have "\<forall>x \<in> set (get_mailboxes (Gmail (\<lambda>h u p. scenario_imap) ''h'' ''u'' ''p'' 0)).
                   \<not> contains gmail_marker x"
    by (rule get_mailboxes_excludes_reserved [THEN conjunct2, THEN conjunct1])
  ultimately show ?thesis by simp
qed

section \<open>The enumeration of message ids\<close>

text \<open>
  Claim C5. When the selection of the mailbox does not report OK, \<open>fetch_message_ids\<close>
  fails: the method does not read the status of \<open>select\<close>, but the library has left the
  connection in the state \<open>AUTH\<close> and raises at the \<open>search\<close>. When the selection reports
  OK and the search does not, the method raises its own exception. In both cases it
  fails with an error; when both report OK it returns the mailbox paired with the ids of
  the reply to the search, split at whitespace.
\<close>

theorem fetch_message_ids_fails_or_returns:
  "(imap_select (gmail_imap self) mailbox \<noteq> IMAP_OK \<longrightarrow>
      fetch_message_ids self mailbox = Inl IMAP4_error)
   \<and> (imap_select (gmail_imap self) mailbox = IMAP_OK
        \<and> fst (imap_search (gmail_imap self) mailbox) \<noteq> IMAP_OK \<longrightarrow>
        fetch_message_ids self mailbox
          = Inl (Exception (''Failed to fetch messages for mailbox '' @ mailbox @ ''.'')))
   \<and> (imap_select (gmail_imap self) mailbox \<noteq> IMAP_OK
        \<or> fst (imap_search (gmail_imap self) mailbox) \<noteq> IMAP_OK \<longrightarrow>
        (\<exists>e. fetch_message_ids self mailbox = Inl e))
   \<and> (imap_select (gmail_imap self) mailbox = IMAP_OK
        \<and> imap_search (gmail_imap self) mailbox = (IMAP_OK, data0) \<longrightarrow>
        fetch_message_ids self mailbox = Inr (mailbox, split_whitespace [] data0))"
proof -
  have unselected: "fetch_message_ids self mailbox = Inl IMAP4_error"
    if "imap_select (gmail_imap self) mailbox \<noteq> IMAP_OK"
    using that by (simp add: fetch_message_ids_def imaplib_select_def)
  have failed: "fetch_message_ids self mailbox
          = Inl (Exception (''Failed to fetch messages for mailbox '' @ mailbox @ ''.''))"
    if "imap_select (gmail_imap self) mailbox = IMAP_OK"
      and "fst (imap_search (gmail_imap self) mailbox) \<noteq> IMAP_OK"
    using that
    by (cases "imap_search (gmail_imap self) mailbox")
      (simp add: fetch_message_ids_def imaplib_select_def)
  have ok: "fetch_message_ids self mailbox = Inr (mailbox, split_whitespace [] data0)"
    if "imap_select (gmail_imap self) mailbox = IMAP_OK"
      and "imap_search (gmail_imap self) mailbox = (IMAP_OK, data0)"
    using that by (simp add: fetch_message_ids_def imaplib_select_def)
  have either: "\<exists>e. fetch_message_ids self mailbox = Inl e"
    if "imap_select (gmail_imap self) mailbox \<noteq> IMAP_OK
        \<or> fst (imap_search (gmail_imap self) mailbox) \<noteq> IMAP_OK"
  proof (cases "imap_select (gmail_imap self) mailbox = IMAP_OK")
    case True
    with that failed show ?thesis by blast
  next
    case False
    with unselected show ?thesis by blast
  qed
  from unselected failed either ok show ?thesis by blast
qed

theorem fetch_message_ids_fails_or_returns_witness:
  "imap_select no_drafts_imap ''Drafts'' \<noteq> IMAP_OK
   \<and> fetch_message_ids \<lparr>gmail_imap = no_drafts_imap, gmail_id = 0\<rparr> ''Drafts''
       = Inl IMAP4_error
   \<and> imap_select no_search_imap ''Sent'' = IMAP_OK
   \<and> fst (imap_search no_search_imap ''Sent'') \<noteq> IMAP_OK
   \<and> fetch_message_ids \<lparr>gmail_imap = no_search_imap, gmail_id = 0\<rparr> ''Sent''
       = Inl (Exception ''Failed to fetch messages for mailbox Sent.'')
   \<and> imap_search scenario_imap ''INBOX'' = (IMAP_OK, ''1 2'')
   \<and> fetch_message_ids \<lparr>gmail_imap = scenario_imap, gmail_id = 0\<rparr> ''INBOX''
       = Inr (''INBOX'', [''1'', ''2''])"
proof -
  have s1: "imap_select no_drafts_imap ''Drafts'' \<noteq> IMAP_OK"
    by (simp add: no_drafts_imap_def IMAP_OK_def)
  have s2: "imap_select no_search_imap ''Sent'' = IMAP_OK"
    "fst (imap_search no_search_imap ''Sent'') \<noteq> IMAP_OK"
    by (simp_all add: no_search_imap_def scenario_imap_def IMAP_OK_def)
  have s3: "imap_select scenario_imap ''INBOX'' = IMAP_OK"
    "imap_search scenario_imap ''INBOX'' = (IMAP_OK, ''1 2'')"
    by (simp_all add: scenario_imap_def IMAP_OK_def)
  have "fetch_message_ids \<lparr>gmail_imap = no_drafts_imap, gmail_id = 0\<rparr> ''Drafts''
       = Inl IMAP4_error"
    using fetch_message_ids_fails_or_returns
      [of "\<lparr>gmail_imap = no_drafts_imap, gmail_id = 0\<rparr>" "''Drafts''"] s1
    by simp
  moreover
  have "fetch_message_ids \<lparr>gmail_imap = no_search_imap, gmail_id = 0\<rparr> ''Sent''
       = Inl (Exception ''Failed to fetch messages for mailbox Sent.'')"
    using fetch_message_ids_fails_or_returns
      [of "\<lparr>gmail_imap = no_search_imap, gmail_id = 0\<rparr>" "''Sent''"] s2
    by simp
  moreover
  have "fetch_message_ids \<lparr>gmail_imap = scenario_imap, gmail_id = 0\<rparr> ''INBOX''
       = Inr (''INBOX'', [''1'', ''2''])"
    using fetch_message_ids_fails_or_returns
      [of "\<lparr>gmail_imap = scenario_imap, gmail_id = 0\<rparr>" "''INBOX''" "''1 2''"] s3
    by (simp add: isspace_def)
  ultimately show ?thesis using s1 s2 s3 by simp
qed

section \<open>Taking and returning a connection\<close>

text \<open>
  Claim C8. When the first block takes an id from the list of available ids, the second
  block run right after it with that id gives back the list as it was; the ids
  available are the same as before.
\<close>

theorem acquire_release_restores:
  assumes "acquire avail_connections = Inr (connection_id, avail')"
  shows "release connection_id avail' = avail_connections
         \<and> set (release connection_id avail') = set avail_connections"
proof -
  from assms have "release connection_id avail' = avail_connections"
    by (auto simp: acquire_def release_def split: if_splits)
  then show ?thesis by simp
qed

theorem acquire_release_restores_witness:
  "acquire [0, 1, 2] = Inr (2, [0, 1]) \<and> set (release 2 [0, 1]) = set [0, 1, 2::nat]"
  using acquire_release_restores [of "[0, 1, 2]" 2 "[0, 1]"] by (simp add: acquire_def)

text \<open>
  Claim C10. The first block removes the id at the tail of the list, the second block
  appends at the tail; so whatever the list is, the first block run after the second
  block has returned \<open>c\<close> takes \<open>c\<close> again and leaves the list as it was before.
\<close>

theorem acquire_is_lifo:
  "acquire (avail_connections @ [c]) = Inr (c, avail_connections)
   \<and> release c avail_connections = avail_connections @ [c]
   \<and> acquire (release c avail_connections) = Inr (c, avail_connections)"
  by (simp add: acquire_def release_def)

section \<open>The size of the pool\<close>

text \<open>
  Claim C9. The \<open>--connections\<close> option of the command line has no effect: whatever its
  value, \<open>main\<close> makes the same call of \<open>scrape\<close>, which has no parameter for the size of
  the pool and creates \<open>CONNECTION_POOL_SIZE\<close> = 10 sessions.
\<close>

theorem connections_option_ignored:
  "main imaplib cpu_count evs_ids evs_msgs (a\<lparr>connections_arg := 3\<rparr>)
     = main imaplib cpu_count evs_ids evs_msgs (a\<lparr>connections_arg := 10\<rparr>)
   \<and> length (connections imaplib (host a) (username a) (password a)) = 10"
  by (simp add: main_def connections_def CONNECTION_POOL_SIZE_def)

section \<open>The results of a job\<close>

text \<open>
  Claim C1. In every state a job on at least one thread can reach, whatever the
  interleaving: when \<open>get()\<close> returns a list, the list has one value per task and the
  value at each position is what the operation returned for the task at that position on a
  connection of the pool; the run can be continued to a state where \<open>get()\<close> returns or
  raises; and no run has more than three events per task. The task list may be empty or
  longer than the pool.
\<close>

theorem map_async_get_aligned:
  assumes "0 < n"
    and "run meth evs (map_async n avail_connections tasks) = Some s"
  shows "(\<forall>rs. get s = Some (Inr rs) \<longrightarrow>
            length rs = length tasks
            \<and> (\<forall>i<length tasks. \<exists>c\<in>set avail_connections. meth c (tasks ! i) = Inr (rs ! i)))
         \<and> (\<exists>evs' s'. run meth (evs @ evs') (map_async n avail_connections tasks) = Some s'
               \<and> get s' \<noteq> None)
         \<and> length evs \<le> 3 * length tasks"
proof -
  have inv: "invariant avail_connections True meth tasks s"
    using assms(2) by (rule reachable_invariant) simp
  then have aligned_results: "\<forall>rs. get s = Some (Inr rs) \<longrightarrow>
            length rs = length tasks
            \<and> (\<forall>i<length tasks. \<exists>c\<in>set avail_connections. meth c (tasks ! i) = Inr (rs ! i))"
    using returned_aligned unfolding invariant_def by blast
  have "threads s = n"
    using run_threads [OF assms(2)] by (simp add: map_async_def)
  with assms(1) obtain evs' s' where c: "run meth evs' s = Some s'" "\<not> busy s'"
    using completes [of s meth] by auto
  with assms(2) have r: "run meth (evs @ evs') (map_async n avail_connections tasks) = Some s'"
    by (simp add: run_append)
  then have "invariant avail_connections True meth tasks s'"
    by (rule reachable_invariant) simp
  with c(2) have "get s' \<noteq> None"
    by (simp add: idle_get invariant_def)
  with r have returns: "\<exists>evs' s'. run meth (evs @ evs') (map_async n avail_connections tasks) = Some s'
               \<and> get s' \<noteq> None"
    by blast
  have "length evs \<le> 3 * length tasks"
    using run_todo [OF assms(2)] by (simp add: todo_map_async)
  with aligned_results returns show ?thesis by (intro conjI)
qed

theorem map_async_get_aligned_witness:
  "(0::nat) < 2
   \<and> (\<exists>s. run (\<lambda>c t. Inr (Suc t) :: error + nat)
              [Start 0 2, Start 1 0, Work 0, Finish 0, Work 2, Start 1 1, Finish 2, Work 1, Finish 1]
              (map_async 2 [0, 1] [10, 20, 30]) = Some s
          \<and> get s = Some (Inr [11, 21, 31]))
   \<and> length [Start 0 2, Start 1 0, Work 0, Finish 0, Work 2, Start 1 1, Finish 2, Work 1, Finish 1]
       \<le> 3 * length [10, 20, 30::nat]"
proof -
  have r: "run (\<lambda>c t. Inr (Suc t) :: error + nat)
              [Start 0 2, Start 1 0, Work 0, Finish 0, Work 2, Start 1 1, Finish 2, Work 1, Finish 1]
              (map_async 2 [0, 1] [10, 20, 30])
           = Some \<lparr>avail = [1, 0], threads = 2,
                   calls = [Returned 11, Returned 21, Returned 31],
                   failure = None, abandoned = []\<rparr>"
    by code_simp
  have g: "get \<lparr>avail = [1, 0], threads = 2,
                calls = [Returned 11, Returned 21, Returned 31 :: (nat, nat) call],
                failure = None, abandoned = []\<rparr> = Some (Inr [11, 21, 31])"
    by (simp add: get_def)
  have pos: "(0::nat) < 2" by simp
  from map_async_get_aligned [OF pos r]
  have "length [Start 0 2, Start 1 0, Work 0, Finish 0, Work 2, Start 1 1, Finish 2, Work 1, Finish 1]
       \<le> 3 * length [10, 20, 30::nat]"
    by blast
  with r g show ?thesis by simp
qed

section \<open>The pool during a job\<close>

text \<open>
  A job that starts from a list holding each of the ids 0..N-1 once, N =
  \<open>CONNECTION_POOL_SIZE\<close>, keeps each of them once among the ids available and the ids
  taken and not put back, in every state it reaches; no id is available while a call
  holds it. As long as no call has raised, the ids taken are the ids leased, so the
  number of ids available plus the number of ids leased is N. When \<open>get()\<close> returns a
  list, every id is available again.
\<close>

lemma taken_conservation:
  assumes "run meth evs (map_async n avail0 tasks) = Some s"
    and "mset avail0 = mset [0..<CONNECTION_POOL_SIZE]"
  shows "length (avail s) + length (taken s) = CONNECTION_POOL_SIZE"
    and "distinct (avail s @ taken s)"
    and "set (avail s) \<union> set (taken s) = {0..<CONNECTION_POOL_SIZE}"
    and "set (avail s) \<inter> set (leased s) = {}"
proof -
  have inv: "invariant avail0 True meth tasks s"
    using assms(1) by (rule reachable_invariant) simp
  then have m: "mset (avail s @ taken s) = mset [0..<CONNECTION_POOL_SIZE]"
    using assms(2) by (simp add: invariant_def conserved_def)
  then have "length (avail s @ taken s) = length [0..<CONNECTION_POOL_SIZE]"
    by (rule mset_eq_length)
  then show "length (avail s) + length (taken s) = CONNECTION_POOL_SIZE" by simp
  from m show d: "distinct (avail s @ taken s)"
    by (metis distinct_upt mset_eq_imp_distinct_iff)
  from m have "set (avail s @ taken s) = set [0..<CONNECTION_POOL_SIZE]"
    by (rule mset_eq_setD)
  then show "set (avail s) \<union> set (taken s) = {0..<CONNECTION_POOL_SIZE}" by simp
  from d show "set (avail s) \<inter> set (leased s) = {}"
    by (auto simp: taken_def leased_def)
qed

lemma leased_before_raise:
  assumes "run meth evs (map_async n avail0 tasks) = Some s"
    and "mset avail0 = mset [0..<CONNECTION_POOL_SIZE]"
    and "failure s = None"
  shows "length (avail s) + length (leased s) = CONNECTION_POOL_SIZE"
    and "set (avail s) \<union> set (leased s) = {0..<CONNECTION_POOL_SIZE}"
proof -
  have "invariant avail0 True meth tasks s"
    using assms(1) by (rule reachable_invariant) simp
  with assms(3) have "taken s = leased s"
    by (simp add: invariant_def recorded_def taken_def leased_def)
  with taken_conservation(1,3) [OF assms(1,2)]
  show "length (avail s) + length (leased s) = CONNECTION_POOL_SIZE"
    and "set (avail s) \<union> set (leased s) = {0..<CONNECTION_POOL_SIZE}"
    by simp_all
qed

lemma initially_available:
  "avail (map_async n [0..<CONNECTION_POOL_SIZE] tasks) = [0..<CONNECTION_POOL_SIZE]"
  "leased (map_async n [0..<CONNECTION_POOL_SIZE] tasks) = []"
  by (simp_all add: leased_def held_map_async) (simp add: map_async_def)

text \<open>
  Claim C3. In the fault scenario, on the two threads of one processor: the calls for
  the two messages of INBOX return, the call for message 3 of Sent takes connection 9
  and raises. Then no call is between the two blocks, so no id is leased, and nine ids
  are available: the number of ids available plus the number of ids leased is 9, not
  N = 10.
\<close>

theorem pool_loses_connection_after_raise:
  "map_option (\<lambda>s. (avail s, leased s, length (avail s) + length (leased s)))
     (run (call_fetch_message (connections (\<lambda>h u p. fault_imap) ''h'' ''u'' ''p''))
        [Start 0 0, Work 0, Finish 0, Start 1 1, Work 1, Finish 1, Start 0 2, Work 2]
        (map_async (workers (connections (\<lambda>h u p. fault_imap) ''h'' ''u'' ''p'') 1)
           [0..<CONNECTION_POOL_SIZE]
           (flat [(''INBOX'', [''1'', ''2'']), (''Sent'', [''3''])])))
     = Some ([0, 1, 2, 3, 4, 5, 6, 7, 8], [], 9)
   \<and> CONNECTION_POOL_SIZE = 10"
  by code_simp

text \<open>
  Claim C6. The number of threads is \<open>min(len(connections), cpu_count * 2)\<close>, which on
  five processors is the size of the pool, ten. On a server where the fetch of the first
  of eleven messages reports NO, this run is possible: the call for the first message
  raises and its connection is not returned; nine more calls then take the nine
  connections left, so that the list is empty while nine calls hold a connection; the
  tenth thread takes the last task and its \<open>pop()\<close> raises IndexError.
\<close>

theorem pool_exhausted_after_raise:
  "workers (connections (\<lambda>h u p. flaky_imap) ''h'' ''u'' ''p'') 5 = CONNECTION_POOL_SIZE
   \<and> map_option (\<lambda>s. (avail s, held s, abandoned s))
        (run (call_fetch_message (connections (\<lambda>h u p. flaky_imap) ''h'' ''u'' ''p''))
           [Start 0 0, Work 0, Start 0 1, Start 1 2, Start 2 3, Start 3 4, Start 4 5,
            Start 5 6, Start 6 7, Start 7 8, Start 8 9]
           (map_async (workers (connections (\<lambda>h u p. flaky_imap) ''h'' ''u'' ''p'') 5)
              [0..<CONNECTION_POOL_SIZE] eleven_tasks))
       = Some ([], [8, 7, 6, 5, 4, 3, 2, 1, 0], [9])
   \<and> map_option (\<lambda>s. calls s ! 10)
        (run (call_fetch_message (connections (\<lambda>h u p. flaky_imap) ''h'' ''u'' ''p''))
           [Start 0 0, Work 0, Start 0 1, Start 1 2, Start 2 3, Start 3 4, Start 4 5,
            Start 5 6, Start 6 7, Start 7 8, Start 8 9, Start 9 10]
           (map_async (workers (connections (\<lambda>h u p. flaky_imap) ''h'' ''u'' ''p'') 5)
              [0..<CONNECTION_POOL_SIZE] eleven_tasks))
       = Some (Raised IndexError)"
  by code_simp

section \<open>The two jobs of scrape\<close>

text \<open>
  Claim C2. When \<open>scrape\<close> returns messages, then the first job returned one pair
  \<open>(mailbox, ids)\<close> per mailbox, in the order of the mailboxes, each the value of
  \<open>fetch_message_ids\<close> for its mailbox; \<open>flat\<close> is the concatenation, pair by pair, of
  one \<open>(mailbox, id)\<close> per id in the order of the ids; and the messages returned are, in
  the order of \<open>flat\<close>, the values of \<open>fetch_message\<close> for its pairs, one per pair. In the
  scenario with INBOX enumerating 1 and 2 and Sent enumerating 3, \<open>flat\<close> is
  \<open>[(INBOX, 1), (INBOX, 2), (Sent, 3)]\<close> and, whatever the interleaving, \<open>scrape\<close>
  returns nothing but the three messages in this order.
\<close>

theorem scrape_returns_flat_messages:
  "(scrape imaplib cpu_count evs_ids evs_msgs h u p (Some mbs) = Some (Inr msgs) \<longrightarrow>
      (\<exists>message_ids.
         map (fetch_message_ids (Gmail imaplib h u p 0)) mbs = map Inr message_ids
         \<and> map (\<lambda>a. fetch_message (Gmail imaplib h u p 0) (fst a) (snd a)) (flat message_ids)
             = map Inr msgs
         \<and> length msgs = length (flat message_ids)))
   \<and> flat ids = concat (map (\<lambda>(mailbox, ids). map (Pair mailbox) ids) ids)
   \<and> flat [(''INBOX'', [''1'', ''2'']), (''Sent'', [''3''])]
       = [(''INBOX'', ''1''), (''INBOX'', ''2''), (''Sent'', ''3'')]
   \<and> (0 < cpu_count
        \<and> scrape (\<lambda>h u p. scenario_imap) cpu_count evs_ids evs_msgs h u p
              (Some [''INBOX'', ''Sent'']) = Some out \<longrightarrow>
        out = Inr [Message ''INBOX/1'', Message ''INBOX/2'', Message ''Sent/3''])"
proof (intro conjI impI)
  assume "scrape imaplib cpu_count evs_ids evs_msgs h u p (Some mbs) = Some (Inr msgs)"
  then obtain message_ids where m:
    "map (fetch_message_ids (Gmail imaplib h u p 0)) mbs = map Inr message_ids"
    "map (\<lambda>a. fetch_message (Gmail imaplib h u p 0) (fst a) (snd a)) (flat message_ids)
       = map Inr msgs"
    using scrape_values by blast
  from m(2) have "length msgs = length (flat message_ids)"
    by (metis length_map)
  with m show "\<exists>message_ids.
         map (fetch_message_ids (Gmail imaplib h u p 0)) mbs = map Inr message_ids
         \<and> map (\<lambda>a. fetch_message (Gmail imaplib h u p 0) (fst a) (snd a)) (flat message_ids)
             = map Inr msgs
         \<and> length msgs = length (flat message_ids)"
    by blast
next
  show "flat ids = concat (map (\<lambda>(mailbox, ids). map (Pair mailbox) ids) ids)"
    by (rule flat_concat)
next
  show "flat [(''INBOX'', [''1'', ''2'']), (''Sent'', [''3''])]
       = [(''INBOX'', ''1''), (''INBOX'', ''2''), (''Sent'', ''3'')]"
    by simp
next
  assume a: "0 < cpu_count
        \<and> scrape (\<lambda>h u p. scenario_imap) cpu_count evs_ids evs_msgs h u p
              (Some [''INBOX'', ''Sent'']) = Some out"
  have o: "(\<forall>e. out = Inl e \<longrightarrow>
            (\<exists>i<length (flat [(''INBOX'', [''1'', ''2'']), (''Sent'', [''3''])]).
               fetch_message (Gmail (\<lambda>h u p. scenario_imap) h u p 0)
                 (fst (flat [(''INBOX'', [''1'', ''2'']), (''Sent'', [''3''])] ! i))
                 (snd (flat [(''INBOX'', [''1'', ''2'']), (''Sent'', [''3''])] ! i)) = Inl e))
         \<and> (\<forall>msgs. out = Inr msgs \<longrightarrow>
              map (\<lambda>a. fetch_message (Gmail (\<lambda>h u p. scenario_imap) h u p 0) (fst a) (snd a))
                (flat [(''INBOX'', [''1'', ''2'']), (''Sent'', [''3''])])
                = map Inr msgs)"
    by (rule scrape_outcome [OF a [THEN conjunct2] a [THEN conjunct1] scenario_message_ids])
      (simp_all add: CONNECTION_POOL_SIZE_def)
  show "out = Inr [Message ''INBOX/1'', Message ''INBOX/2'', Message ''Sent/3'']"
  proof (cases out)
    case (Inl e)
    with o obtain i where "i < Suc (Suc (Suc 0))"
      "fetch_message (Gmail (\<lambda>h u p. scenario_imap) h u p 0)
         (fst ([(''INBOX'', ''1''), (''INBOX'', ''2''), (''Sent'', ''3'')] ! i))
         (snd ([(''INBOX'', ''1''), (''INBOX'', ''2''), (''Sent'', ''3'')] ! i)) = Inl e"
      by auto
    then show ?thesis
      by (auto dest!: less_3_cases
          simp: fetch_message_def imaplib_select_def Gmail_def scenario_imap_def IMAP_OK_def)
  next
    case (Inr rs)
    with o have "map (\<lambda>a. fetch_message (Gmail (\<lambda>h u p. scenario_imap) h u p 0) (fst a) (snd a))
                [(''INBOX'', ''1''), (''INBOX'', ''2''), (''Sent'', ''3'')]
                = map Inr rs"
      by simp
    then have "map Inr [Message ''INBOX/1'', Message ''INBOX/2'', Message ''Sent/3'']
                 = (map Inr rs :: (error + message) list)"
      by (simp add: fetch_message_def imaplib_select_def Gmail_def scenario_imap_def IMAP_OK_def)
    then have "[Message ''INBOX/1'', Message ''INBOX/2'', Message ''Sent/3''] = rs"
      by (rule map_Inr_inj)
    with Inr show ?thesis by simp
  qed
qed

theorem scrape_returns_flat_messages_witness:
  "(0::nat) < 1
   \<and> scrape (\<lambda>h u p. scenario_imap) 1
       [Start 0 0, Start 1 1, Work 1, Work 0, Finish 1, Finish 0]
       [Start 1 2, Start 0 0, Work 0, Finish 0, Start 0 1, Work 1, Finish 1, Work 2, Finish 2]
       ''h'' ''u'' ''p'' (Some [''INBOX'', ''Sent''])
     = Some (Inr [Message ''INBOX/1'', Message ''INBOX/2'', Message ''Sent/3''])
   \<and> (\<exists>message_ids.
         map (fetch_message_ids (Gmail (\<lambda>h u p. scenario_imap) ''h'' ''u'' ''p'' 0))
           [''INBOX'', ''Sent''] = map Inr message_ids
         \<and> length [Message ''INBOX/1'', Message ''INBOX/2'', Message ''Sent/3'']
             = length (flat message_ids))"
proof -
  have e: "scrape (\<lambda>h u p. scenario_imap) 1
       [Start 0 0, Start 1 1, Work 1, Work 0, Finish 1, Finish 0]
       [Start 1 2, Start 0 0, Work 0, Finish 0, Start 0 1, Work 1, Finish 1, Work 2, Finish 2]
       ''h'' ''u'' ''p'' (Some [''INBOX'', ''Sent''])
     = Some (Inr [Message ''INBOX/1'', Message ''INBOX/2'', Message ''Sent/3''])"
    by code_simp
  from scrape_returns_flat_messages [THEN conjunct1, rule_format, OF e]
  have "\<exists>message_ids.
         map (fetch_message_ids (Gmail (\<lambda>h u p. scenario_imap) ''h'' ''u'' ''p'' 0))
           [''INBOX'', ''Sent''] = map Inr message_ids
         \<and> length [Message ''INBOX/1'', Message ''INBOX/2'', Message ''Sent/3'']
             = length (flat message_ids)"
    by blast
  with e show ?thesis by simp
qed

text \<open>
  Claim C4. Once a call of a job has raised, \<open>get()\<close> raises, whatever else the job does:
  it raises the exception of a call that raised (the first), which is that call's
  exception when no other call raised another one, and it returns no list of values. In
  the fault scenario, where the fetch of message 3 of Sent reports NO, \<open>scrape\<close> returns
  no messages, whatever the interleaving: it raises the exception of that fetch.
\<close>

theorem raise_aborts_run:
  "(run meth evs (map_async n avail0 tasks) = Some s \<and> i < length tasks
      \<and> calls s ! i = Raised e \<longrightarrow>
      (\<exists>e'. get s = Some (Inl e') \<and> Raised e' \<in> set (calls s))
      \<and> (\<forall>rs. get s \<noteq> Some (Inr rs))
      \<and> ((\<forall>x \<in> set (calls s). \<forall>e'. x = Raised e' \<longrightarrow> e' = e) \<longrightarrow> get s = Some (Inl e)))
   \<and> (0 < cpu_count
        \<and> scrape (\<lambda>h u p. fault_imap) cpu_count evs_ids evs_msgs h u p
              (Some [''INBOX'', ''Sent'']) = Some out \<longrightarrow>
        out = Inl (Exception ''Failed to retrieve message 3 from mailbox Sent.''))"
proof (intro conjI impI)
  assume a: "run meth evs (map_async n avail0 tasks) = Some s \<and> i < length tasks
      \<and> calls s ! i = Raised e"
  then have r: "run meth evs (map_async n avail0 tasks) = Some s" by simp
  have "invariant avail0 True meth tasks s"
    using r by (rule reachable_invariant) simp
  then have rec: "recorded s" and len: "length (calls s) = length tasks"
    by (simp_all add: invariant_def aligned_def)
  have "\<exists>e'. get s = Some (Inl e') \<and> Raised e' \<in> set (calls s)"
    by (rule raised_get [OF rec, of i e]) (use a len in simp_all)
  then obtain e' where e': "get s = Some (Inl e')" "Raised e' \<in> set (calls s)"
    by blast
  then show "\<exists>e'. get s = Some (Inl e') \<and> Raised e' \<in> set (calls s)" by blast
  from e' show "\<forall>rs. get s \<noteq> Some (Inr rs)" by simp
  assume "\<forall>x \<in> set (calls s). \<forall>e'. x = Raised e' \<longrightarrow> e' = e"
  with e' show "get s = Some (Inl e)" by auto
next
  assume a: "0 < cpu_count
        \<and> scrape (\<lambda>h u p. fault_imap) cpu_count evs_ids evs_msgs h u p
              (Some [''INBOX'', ''Sent'']) = Some out"
  have o: "(\<forall>e. out = Inl e \<longrightarrow>
            (\<exists>i<length (flat [(''INBOX'', [''1'', ''2'']), (''Sent'', [''3''])]).
               fetch_message (Gmail (\<lambda>h u p. fault_imap) h u p 0)
                 (fst (flat [(''INBOX'', [''1'', ''2'']), (''Sent'', [''3''])] ! i))
                 (snd (flat [(''INBOX'', [''1'', ''2'']), (''Sent'', [''3''])] ! i)) = Inl e))
         \<and> (\<forall>msgs. out = Inr msgs \<longrightarrow>
              map (\<lambda>a. fetch_message (Gmail (\<lambda>h u p. fault_imap) h u p 0) (fst a) (snd a))
                (flat [(''INBOX'', [''1'', ''2'']), (''Sent'', [''3''])])
                = map Inr msgs)"
    by (rule scrape_outcome [OF a [THEN conjunct2] a [THEN conjunct1] fault_message_ids])
      (simp_all add: CONNECTION_POOL_SIZE_def)
  show "out = Inl (Exception ''Failed to retrieve message 3 from mailbox Sent.'')"
  proof (cases out)
    case (Inl e)
    with o obtain i where "i < Suc (Suc (Suc 0))"
      "fetch_message (Gmail (\<lambda>h u p. fault_imap) h u p 0)
         (fst ([(''INBOX'', ''1''), (''INBOX'', ''2''), (''Sent'', ''3'')] ! i))
         (snd ([(''INBOX'', ''1''), (''INBOX'', ''2''), (''Sent'', ''3'')] ! i)) = Inl e"
      by auto
    with Inl show ?thesis
      by (auto dest!: less_3_cases
          simp: fetch_message_def imaplib_select_def Gmail_def fault_imap_def scenario_imap_def IMAP_OK_def)
  next
    case (Inr rs)
    with o have eq: "map (\<lambda>a. fetch_message (Gmail (\<lambda>h u p. fault_imap) h u p 0) (fst a) (snd a))
                [(''INBOX'', ''1''), (''INBOX'', ''2''), (''Sent'', ''3'')]
                = map Inr rs"
      by simp
    have len: "length rs = 3"
      using arg_cong [OF eq, of length] by simp
    have "map (\<lambda>a. fetch_message (Gmail (\<lambda>h u p. fault_imap) h u p 0) (fst a) (snd a))
                [(''INBOX'', ''1''), (''INBOX'', ''2''), (''Sent'', ''3'')] ! 2
            = map Inr rs ! 2"
      by (simp only: eq)
    with len have False
      by (simp add: fetch_message_def imaplib_select_def Gmail_def fault_imap_def scenario_imap_def IMAP_OK_def)
    then show ?thesis ..
  qed
qed

theorem raise_aborts_run_witness:
  "(0::nat) < 1
   \<and> scrape (\<lambda>h u p. fault_imap) 1
       [Start 0 0, Start 1 1, Work 1, Work 0, Finish 1, Finish 0]
       [Start 0 0, Work 0, Finish 0, Start 1 1, Work 1, Finish 1, Start 0 2, Work 2]
       ''h'' ''u'' ''p'' (Some [''INBOX'', ''Sent''])
     = Some (Inl (Exception ''Failed to retrieve message 3 from mailbox Sent.''))
   \<and> map_option (\<lambda>s. (calls s, get s))
        (run (call_fetch_message (connections (\<lambda>h u p. fault_imap) ''h'' ''u'' ''p''))
           [Start 0 0, Work 0, Finish 0, Start 1 1, Work 1, Finish 1, Start 0 2, Work 2]
           (map_async 2 [0..<CONNECTION_POOL_SIZE]
              [(''INBOX'', ''1''), (''INBOX'', ''2''), (''Sent'', ''3'')]))
       = Some ([Returned (Message ''INBOX/1''), Returned (Message ''INBOX/2''),
                Raised (Exception ''Failed to retrieve message 3 from mailbox Sent.'')],
               Some (Inl (Exception ''Failed to retrieve message 3 from mailbox Sent.'')))"
proof -
  obtain s where r:
    "run (call_fetch_message (connections (\<lambda>h u p. fault_imap) ''h'' ''u'' ''p''))
           [Start 0 0, Work 0, Finish 0, Start 1 1, Work 1, Finish 1, Start 0 2, Work 2]
           (map_async 2 [0..<CONNECTION_POOL_SIZE]
              [(''INBOX'', ''1''), (''INBOX'', ''2''), (''Sent'', ''3'')]) = Some s"
    and c: "calls s = [Returned (Message ''INBOX/1''), Returned (Message ''INBOX/2''),
                       Raised (Exception ''Failed to retrieve message 3 from mailbox Sent.'')]"
  proof -
    have "map_option calls
        (run (call_fetch_message (connections (\<lambda>h u p. fault_imap) ''h'' ''u'' ''p''))
           [Start 0 0, Work 0, Finish 0, Start 1 1, Work 1, Finish 1, Start 0 2, Work 2]
           (map_async 2 [0..<CONNECTION_POOL_SIZE]
              [(''INBOX'', ''1''), (''INBOX'', ''2''), (''Sent'', ''3'')]))
       = Some [Returned (Message ''INBOX/1''), Returned (Message ''INBOX/2''),
               Raised (Exception ''Failed to retrieve message 3 from mailbox Sent.'')]"
      by code_simp
    then show ?thesis using that by auto
  qed
  have third: "calls s ! 2 = Raised (Exception ''Failed to retrieve message 3 from mailbox Sent.'')"
    by (simp add: c)
  have only: "\<forall>x \<in> set (calls s). \<forall>e'. x = Raised e' \<longrightarrow>
                e' = Exception ''Failed to retrieve message 3 from mailbox Sent.''"
    by (simp add: c)
  have "(\<forall>x \<in> set (calls s). \<forall>e'. x = Raised e' \<longrightarrow>
                e' = Exception ''Failed to retrieve message 3 from mailbox Sent.'') \<longrightarrow>
        get s = Some (Inl (Exception ''Failed to retrieve message 3 from mailbox Sent.''))"
    using raise_aborts_run [THEN conjunct1, rule_format, OF conjI [OF r conjI [OF _ third]]]
    by simp
  with only have g: "get s = Some (Inl (Exception ''Failed to retrieve message 3 from mailbox Sent.''))"
    by (rule rev_mp)
  have e: "scrape (\<lambda>h u p. fault_imap) 1
       [Start 0 0, Start 1 1, Work 1, Work 0, Finish 1, Finish 0]
       [Start 0 0, Work 0, Finish 0, Start 1 1, Work 1, Finish 1, Start 0 2, Work 2]
       ''h'' ''u'' ''p'' (Some [''INBOX'', ''Sent''])
     = Some (Inl (Exception ''Failed to retrieve message 3 from mailbox Sent.''))"
    by code_simp
  from r c g e show ?thesis by simp
qed

end
